theory Spec2Isabelle
  imports Main "HOL-Library.Finite_Map" "HOL-Library.AList" "HOL-Library.Word"
    "HOL-Library.List_Lexorder" "HOL-Library.Char_ord"
begin

unbundle bit_operations_syntax

section \<open>Environments (pkg/secret/secret.go)\<close>

text \<open>
  \<^verbatim>\<open>type Environment struct { Name string; Production bool; IsGroup bool }\<close>
  The six package-level variables are never assigned after their declaration,
  so they are constants here. A \<^verbatim>\<open>*Environment\<close> is an \<open>Environment option\<close>,
  \<open>None\<close> being the nil pointer; the code only ever dereferences such a
  pointer and compares the struct values.
\<close>

record Environment =
  Name :: string
  Production :: bool
  IsGroup :: bool

definition DevEnv :: Environment where
  "DevEnv = \<lparr>Name = ''dev'', Production = False, IsGroup = False\<rparr>"

definition TestEnv :: Environment where
  "TestEnv = \<lparr>Name = ''test'', Production = False, IsGroup = False\<rparr>"

definition StagingEnv :: Environment where
  "StagingEnv = \<lparr>Name = ''staging'', Production = False, IsGroup = False\<rparr>"

definition ProdEnv :: Environment where
  "ProdEnv = \<lparr>Name = ''prod'', Production = True, IsGroup = False\<rparr>"

definition NonprodEnv :: Environment where
  "NonprodEnv = \<lparr>Name = ''nonprod'', Production = False, IsGroup = True\<rparr>"

definition GlobalEnv :: Environment where
  "GlobalEnv = \<lparr>Name = ''global'', Production = True, IsGroup = True\<rparr>"

definition fixedEnvs :: "Environment list" where
  "fixedEnvs = [DevEnv, TestEnv, StagingEnv, ProdEnv, NonprodEnv, GlobalEnv]"

text \<open>\<^verbatim>\<open>GetEnvFromString\<close>: a switch over the six names, nil by default.\<close>

definition GetEnvFromString :: "string \<Rightarrow> Environment option" where
  "GetEnvFromString env =
     (if env = Name DevEnv then Some DevEnv
      else if env = Name TestEnv then Some TestEnv
      else if env = Name StagingEnv then Some StagingEnv
      else if env = Name ProdEnv then Some ProdEnv
      else if env = Name GlobalEnv then Some GlobalEnv
      else if env = Name NonprodEnv then Some NonprodEnv
      else None)"

section \<open>Go values and the standard library\<close>

text \<open>
  The dynamic values an \<^verbatim>\<open>interface{}\<close> of a data or tag map holds in this
  program. Data and tags are filled by JSON decoders only (\<^verbatim>\<open>json.Unmarshal\<close>
  for the AWS source, the Vault client's decoder, which keeps numbers as
  \<^verbatim>\<open>json.Number\<close>) and by \<^verbatim>\<open>ParseFilterTags\<close>, so a value is nil, a bool, a
  string, a \<^verbatim>\<open>json.Number\<close> (a string type of its own), a float64 (its 64 bits),
  a \<^verbatim>\<open>[]interface{}\<close> or a \<^verbatim>\<open>map[string]interface{}\<close>. A slice and a map may
  be nil, which is a value of the slice or map type and not the nil
  interface: \<open>GNilSlice\<close> and \<open>GNilMap\<close>.

  A map that is not nil is a finite map: no order, no duplicate keys. A
  variable or field of type \<^verbatim>\<open>map[string]interface{}\<close> is a \<open>gomap\<close>: \<open>None\<close>
  for the nil map, which reads as an empty map and cannot be assigned to. A
  missing key reads as the nil interface, which is also a value a key may
  hold.
\<close>

datatype gvalue =
    GNil
  | GBool bool
  | GString string
  | GNumber string
  | GFloat64 "64 word"
  | GSlice "gvalue list"
  | GNilSlice
  | GMap "(string, gvalue) fmap"
  | GNilMap

type_synonym gomap = "(string, gvalue) fmap option"

text \<open>
  A panic ends the run; it is the error value of every function that may
  raise one. The run-time panics of the model carry the message of the Go
  runtime, without the name of the type for the comparison (with several
  offending map entries, which one is met first is not fixed).
\<close>

datatype error = Panic string

definition uncomparable :: error where
  "uncomparable = Panic ''runtime error: comparing uncomparable type''"

definition nilDereference :: error where
  "nilDereference = Panic ''runtime error: invalid memory address or nil pointer dereference''"

definition nilMapAssignment :: error where
  "nilMapAssignment = Panic ''assignment to entry in nil map''"

text \<open>The entries a map is read with (\<^verbatim>\<open>range\<close>), \<^verbatim>\<open>len(m)\<close>, \<^verbatim>\<open>m[key]\<close>, and the
  interface value a map becomes when it is passed as an \<^verbatim>\<open>interface{}\<close>.\<close>

definition entries :: "gomap \<Rightarrow> (string, gvalue) fmap" where
  "entries m = (case m of None \<Rightarrow> fmempty | Some e \<Rightarrow> e)"

definition len :: "gomap \<Rightarrow> nat" where
  "len m = fcard (fmdom (entries m))"

definition index :: "gomap \<Rightarrow> string \<Rightarrow> gvalue" where
  "index m key = (case fmlookup (entries m) key of None \<Rightarrow> GNil | Some v \<Rightarrow> v)"

definition asInterface :: "gomap \<Rightarrow> gvalue" where
  "asInterface m = (case m of None \<Rightarrow> GNilMap | Some e \<Rightarrow> GMap e)"

text \<open>IEEE 754 on the bits of a float64: not-a-number, finite, and equality.\<close>

definition isNaN64 :: "64 word \<Rightarrow> bool" where
  "isNaN64 w = (w AND 0x7FF0000000000000 = 0x7FF0000000000000 \<and> w AND 0x000FFFFFFFFFFFFF \<noteq> 0)"

definition isFinite64 :: "64 word \<Rightarrow> bool" where
  "isFinite64 w = (w AND 0x7FF0000000000000 \<noteq> 0x7FF0000000000000)"

definition float64_eq :: "64 word \<Rightarrow> 64 word \<Rightarrow> bool" where
  "float64_eq a b =
     (\<not> isNaN64 a \<and> \<not> isNaN64 b \<and>
      (a = b \<or> (a AND 0x7FFFFFFFFFFFFFFF = 0 \<and> b AND 0x7FFFFFFFFFFFFFFF = 0)))"

text \<open>
  Go's \<^verbatim>\<open>==\<close> on two interface values: false when the dynamic types differ,
  the comparison of the values when they agree, and a run-time panic when
  the common dynamic type is not comparable (a slice or a map, nil or not).
\<close>

fun interface_eq :: "gvalue \<Rightarrow> gvalue \<Rightarrow> error + bool" where
  "interface_eq GNil GNil = Inr True"
| "interface_eq (GBool a) (GBool b) = Inr (a = b)"
| "interface_eq (GString a) (GString b) = Inr (a = b)"
| "interface_eq (GNumber a) (GNumber b) = Inr (a = b)"
| "interface_eq (GFloat64 a) (GFloat64 b) = Inr (float64_eq a b)"
| "interface_eq (GSlice a) (GSlice b) = Inl uncomparable"
| "interface_eq (GSlice a) GNilSlice = Inl uncomparable"
| "interface_eq GNilSlice (GSlice b) = Inl uncomparable"
| "interface_eq GNilSlice GNilSlice = Inl uncomparable"
| "interface_eq (GMap a) (GMap b) = Inl uncomparable"
| "interface_eq (GMap a) GNilMap = Inl uncomparable"
| "interface_eq GNilMap (GMap b) = Inl uncomparable"
| "interface_eq GNilMap GNilMap = Inl uncomparable"
| "interface_eq a b = Inr False"

text \<open>
  The functions of Go's standard library whose results the repository uses
  without fixing them: \<^verbatim>\<open>fmt.Sprintf("%v", x)\<close> on a value that is not a
  string, \<^verbatim>\<open>reflect.DeepEqual\<close>, and \<^verbatim>\<open>json.Marshal\<close> followed by
  \<^verbatim>\<open>json.Unmarshal\<close> into a fresh \<^verbatim>\<open>interface{}\<close> (which stays nil when
  either call fails; both errors are dropped by the caller). The functions
  of the repository take them as a parameter, so what is proved of the
  repository with a free \<open>L\<close> holds for each behaviour of them. What
  \<^verbatim>\<open>reflect.DeepEqual\<close> and the JSON round trip compute on the values above is
  defined after them, as \<open>stdlib\<close>.
\<close>

record golib =
  fmtValue :: "gvalue \<Rightarrow> string"
  reflectDeepEqual :: "gvalue \<Rightarrow> gvalue \<Rightarrow> bool"
  jsonRoundTrip :: "gvalue \<Rightarrow> gvalue"

text \<open>\<^verbatim>\<open>fmt.Sprintf("%v", x)\<close>: a string prints as itself, and so does a
  \<^verbatim>\<open>json.Number\<close>, through its \<^verbatim>\<open>String\<close> method.\<close>

definition Sprintf_v :: "golib \<Rightarrow> gvalue \<Rightarrow> string" where
  "Sprintf_v L x = (case x of GString s \<Rightarrow> s | GNumber s \<Rightarrow> s | _ \<Rightarrow> fmtValue L x)"

text \<open>
  \<^verbatim>\<open>strings.Split(s, sep)\<close> for a separator of one byte, which is every
  separator of the repository (\<^verbatim>\<open>"-"\<close>, \<^verbatim>\<open>";"\<close>, \<^verbatim>\<open>"="\<close>): the segments between the
  occurrences of the separator, so one segment more than occurrences.
\<close>

fun Split :: "string \<Rightarrow> char \<Rightarrow> string list" where
  "Split [] sep = [[]]"
| "Split (c # cs) sep =
     (if c = sep then [] # Split cs sep
      else (case Split cs sep of [] \<Rightarrow> [[c]] | seg # segs \<Rightarrow> (c # seg) # segs))"

definition HasSuffix :: "string \<Rightarrow> string \<Rightarrow> bool" where
  "HasSuffix s suffix =
     (length suffix \<le> length s \<and> drop (length s - length suffix) s = suffix)"

definition TrimSuffix :: "string \<Rightarrow> string \<Rightarrow> string" where
  "TrimSuffix s suffix =
     (if HasSuffix s suffix then take (length s - length suffix) s else s)"

section \<open>reflect.DeepEqual and the JSON round trip\<close>

text \<open>
  \<^verbatim>\<open>reflect.DeepEqual\<close> on two values: false when the types differ; floats
  compare with \<^verbatim>\<open>==\<close>, so a NaN equals nothing and the two zeros are equal;
  two slices that are not nil are equal when they have the same length and
  equal elements, two maps that are not nil when they have the same keys with
  equal values; a nil slice or map equals only a nil one. (The shortcut for
  the same slice or map object does not arise: the two secrets compared come
  from two decodings.)
\<close>

function (sequential) reflect_DeepEqual :: "gvalue \<Rightarrow> gvalue \<Rightarrow> bool" where
  "reflect_DeepEqual (GSlice xs) (GSlice ys) = list_all2 reflect_DeepEqual xs ys"
| "reflect_DeepEqual (GMap m) (GMap n) = fmrel reflect_DeepEqual m n"
| "reflect_DeepEqual (GFloat64 a) (GFloat64 b) = float64_eq a b"
| "reflect_DeepEqual x y = (x = y)"
  by pat_completeness auto
termination
proof (relation "measure (\<lambda>(x, y). size x)")
  show "wf (measure (\<lambda>(x, y). size x))" by simp
next
  fix xs ys :: "gvalue list" and z yb
  assume "z \<in> set xs"
  then have "size z < Suc (size_list size xs)"
    using size_list_estimation' [of z xs "size z" size] by simp
  then show "((z, yb), (GSlice xs, GSlice ys)) \<in> measure (\<lambda>(x, y). size x)" by simp
next
  fix m n :: "(string, gvalue) fmap" and z yb
  assume "z \<in> fmran' m"
  then obtain k where "fmlookup m k = Some z" by (auto simp: fmlookup_ran'_iff)
  then have mem: "(k, z) \<in> fset (fset_of_fmap m)" by (simp add: fset_of_fmap_iff')
  have "Suc (size z) \<le> (\<Sum>x\<in>fset (fset_of_fmap m). Suc (case x of (a, x) \<Rightarrow> size x))"
    using member_le_sum [OF mem, of "\<lambda>x. Suc (case x of (a, x) \<Rightarrow> size x)"] by simp
  then show "((z, yb), (GMap m, GMap n)) \<in> measure (\<lambda>(x, y). size x)" by simp
qed

text \<open>
  \<^verbatim>\<open>json.Marshal\<close> writes a string with every byte that does not start a
  valid UTF-8 sequence replaced by U+FFFD, and the decoder reads the result
  back unchanged. \<open>utf8Len\<close> is the size \<^verbatim>\<open>utf8.DecodeRuneInString\<close> returns for
  a valid sequence at the head of the string, and 0 where it returns
  \<^verbatim>\<open>RuneError\<close> with size 1.
\<close>

definition utf8Need :: "nat \<Rightarrow> nat" where
  "utf8Need b0 =
     (if b0 < 0x80 then 1
      else if 0xC2 \<le> b0 \<and> b0 \<le> 0xDF then 2
      else if 0xE0 \<le> b0 \<and> b0 \<le> 0xEF then 3
      else if 0xF0 \<le> b0 \<and> b0 \<le> 0xF4 then 4
      else 0)"

definition utf8Tail :: "nat list \<Rightarrow> bool" where
  "utf8Tail bs =
     (case bs of
        [b0] \<Rightarrow> True
      | [b0, b1] \<Rightarrow> 0x80 \<le> b1 \<and> b1 \<le> 0xBF
      | [b0, b1, b2] \<Rightarrow>
          (if b0 = 0xE0 then 0xA0 else 0x80) \<le> b1 \<and>
          b1 \<le> (if b0 = 0xED then 0x9F else 0xBF) \<and>
          0x80 \<le> b2 \<and> b2 \<le> 0xBF
      | [b0, b1, b2, b3] \<Rightarrow>
          (if b0 = 0xF0 then 0x90 else 0x80) \<le> b1 \<and>
          b1 \<le> (if b0 = 0xF4 then 0x8F else 0xBF) \<and>
          0x80 \<le> b2 \<and> b2 \<le> 0xBF \<and> 0x80 \<le> b3 \<and> b3 \<le> 0xBF
      | _ \<Rightarrow> False)"

definition utf8Len :: "string \<Rightarrow> nat" where
  "utf8Len s =
     (case s of
        [] \<Rightarrow> 0
      | c # cs \<Rightarrow>
          let n = utf8Need (of_char c)
          in if n = 0 \<or> length s < n \<or> \<not> utf8Tail (map of_char (take n s)) then 0 else n)"

function toValidUTF8 :: "string \<Rightarrow> string" where
  "toValidUTF8 [] = []"
| "toValidUTF8 (c # cs) =
     (if utf8Len (c # cs) = 0 then [CHR 0xEF, CHR 0xBF, CHR 0xBD] @ toValidUTF8 cs
      else take (utf8Len (c # cs)) (c # cs) @ toValidUTF8 (drop (utf8Len (c # cs)) (c # cs)))"
  by pat_completeness auto
termination
  by (relation "measure length") auto

text \<open>
  A \<^verbatim>\<open>json.Number\<close> is written as it is when \<^verbatim>\<open>isValidNumber\<close> accepts it (the
  empty one as \<^verbatim>\<open>0\<close>), and \<^verbatim>\<open>Marshal\<close> fails otherwise. The decoder reads a
  number into an \<^verbatim>\<open>interface{}\<close> with \<^verbatim>\<open>strconv.ParseFloat\<close>: the float64 nearest
  to the decimal value, ties to the even mantissa, and an error when that is
  an infinity.
\<close>

definition isDigit :: "char \<Rightarrow> bool" where
  "isDigit c = (c \<in> set ''0123456789'')"

definition isValidNumber :: "string \<Rightarrow> bool" where
  "isValidNumber s =
     (if s = [] then False
      else
        let s1 = (if hd s = CHR ''-'' then tl s else s)
        in if s1 = [] then False
           else if \<not> isDigit (hd s1) then False
           else
             let s2 = (if hd s1 = CHR ''0'' then tl s1 else dropWhile isDigit (tl s1));
                 s3 = (if length s2 \<ge> 2 \<and> s2 ! 0 = CHR ''.'' \<and> isDigit (s2 ! 1)
                       then dropWhile isDigit (drop 2 s2) else s2)
             in if length s3 \<ge> 2 \<and> (s3 ! 0 = CHR ''e'' \<or> s3 ! 0 = CHR ''E'')
                then
                  let s4 = tl s3
                  in if s4 ! 0 = CHR ''+'' \<or> s4 ! 0 = CHR ''-''
                     then (if tl s4 = [] then False else dropWhile isDigit (tl s4) = [])
                     else dropWhile isDigit s4 = []
                else s3 = [])"

text \<open>The value of a number literal is its digits, as an integer, times a
  power of ten; \<open>roundFloat64 neg p q\<close> is the float64 nearest to \<open>p / q\<close>, with
  the sign \<open>neg\<close>, or the infinity when that is out of range.\<close>

definition digitsValue :: "string \<Rightarrow> int" where
  "digitsValue ds = fold (\<lambda>c n. 10 * n + (of_char c - 48)) ds 0"

function bitLen :: "int \<Rightarrow> int" where
  "bitLen n = (if n \<le> 0 then 0 else 1 + bitLen (n div 2))"
  by pat_completeness auto
termination
  by (relation "measure nat") auto

definition roundHalfEven :: "int \<Rightarrow> int \<Rightarrow> int" where
  "roundHalfEven n d =
     (let q = n div d; r = n mod d
      in if 2 * r < d then q else if d < 2 * r then q + 1 else if even q then q else q + 1)"

definition scaled :: "int \<Rightarrow> int \<Rightarrow> int \<Rightarrow> int \<times> int" where
  "scaled p q u = (if 0 \<le> u then (p, q * 2 ^ nat u) else (p * 2 ^ nat (- u), q))"

definition roundFloat64 :: "bool \<Rightarrow> int \<Rightarrow> int \<Rightarrow> 64 word" where
  "roundFloat64 neg p q =
     (let sign = (if neg then 0x8000000000000000 else 0)
      in if p = 0 then sign
         else
           let e0 = bitLen p - bitLen q;
               e = (if fst (scaled p q e0) < snd (scaled p q e0) then e0 - 1 else e0);
               u = max (e - 52) (- 1074);
               m0 = roundHalfEven (fst (scaled p q u)) (snd (scaled p q u));
               m = (if m0 = 2 ^ 53 then 2 ^ 52 else m0);
               u' = (if m0 = 2 ^ 53 then u + 1 else u)
           in if m < 2 ^ 52 then sign OR word_of_int m
              else if 2046 < u' + 1075 then sign OR 0x7FF0000000000000
              else sign OR push_bit 52 (word_of_int (u' + 1075)) OR word_of_int (m - 2 ^ 52))"

definition parseNumber :: "string \<Rightarrow> 64 word" where
  "parseNumber s =
     (let neg = (s \<noteq> [] \<and> hd s = CHR ''-'');
          s1 = (if neg then tl s else s);
          ip = takeWhile isDigit s1;
          r1 = dropWhile isDigit s1;
          fp = (if r1 \<noteq> [] \<and> hd r1 = CHR ''.'' then takeWhile isDigit (tl r1) else []);
          r2 = (if r1 \<noteq> [] \<and> hd r1 = CHR ''.'' then dropWhile isDigit (tl r1) else r1);
          ex = (if r2 = [] then 0
                else let r3 = tl r2
                     in if r3 \<noteq> [] \<and> hd r3 = CHR ''-'' then - digitsValue (tl r3)
                        else if r3 \<noteq> [] \<and> hd r3 = CHR ''+'' then digitsValue (tl r3)
                        else digitsValue r3);
          d = digitsValue (ip @ fp);
          k = ex - int (length fp)
      in if 0 \<le> k then roundFloat64 neg (d * 10 ^ nat k) 1
         else roundFloat64 neg d (10 ^ nat (- k)))"

definition ParseFloat :: "string \<Rightarrow> 64 word option" where
  "ParseFloat s = (let f = parseNumber s in if isFinite64 f then Some f else None)"

text \<open>
  \<^verbatim>\<open>json.Marshal\<close> of a value followed by \<^verbatim>\<open>json.Unmarshal\<close> of the text into an
  \<^verbatim>\<open>interface{}\<close>: \<open>None\<close> when \<^verbatim>\<open>Marshal\<close> fails (a NaN or an infinity, an
  invalid number literal), and the decoded value otherwise. A nil slice or
  map is written \<^verbatim>\<open>null\<close> and read as nil; every number is read as a float64,
  and as nil when \<^verbatim>\<open>ParseFloat\<close> fails; the keys of a map are written in
  their order as strings, each as a string is, and of two entries that come
  to the same key the decoder keeps the later.
\<close>

definition jsonObject :: "(string, gvalue option) fmap \<Rightarrow> (string, gvalue) fmap option" where
  "jsonObject m =
     (if fmpred (\<lambda>key v. v \<noteq> None) m
      then Some (fold (\<lambda>key acc. fmupd (toValidUTF8 key) (the (the (fmlookup m key))) acc)
                   (sorted_list_of_fset (fmdom m)) fmempty)
      else None)"

primrec jsonMarshalUnmarshal :: "gvalue \<Rightarrow> gvalue option" where
  "jsonMarshalUnmarshal GNil = Some GNil"
| "jsonMarshalUnmarshal (GBool b) = Some (GBool b)"
| "jsonMarshalUnmarshal (GString s) = Some (GString (toValidUTF8 s))"
| "jsonMarshalUnmarshal (GNumber s) =
     (let numStr = (if s = [] then ''0'' else s)
      in if isValidNumber numStr
         then Some (case ParseFloat numStr of Some f \<Rightarrow> GFloat64 f | None \<Rightarrow> GNil)
         else None)"
| "jsonMarshalUnmarshal (GFloat64 f) = (if isFinite64 f then Some (GFloat64 f) else None)"
| "jsonMarshalUnmarshal (GSlice xs) = map_option GSlice (those (map jsonMarshalUnmarshal xs))"
| "jsonMarshalUnmarshal GNilSlice = Some GNil"
| "jsonMarshalUnmarshal (GMap m) = map_option GMap (jsonObject (fmmap jsonMarshalUnmarshal m))"
| "jsonMarshalUnmarshal GNilMap = Some GNil"

text \<open>What \<^verbatim>\<open>DeepEqual\<close> of the repository gets from the two calls: the
  target of \<^verbatim>\<open>Unmarshal\<close> stays nil when \<^verbatim>\<open>Marshal\<close> has failed.\<close>

definition json_round_trip :: "gvalue \<Rightarrow> gvalue" where
  "json_round_trip x = (case jsonMarshalUnmarshal x of None \<Rightarrow> GNil | Some y \<Rightarrow> y)"

definition stdlib :: "(gvalue \<Rightarrow> string) \<Rightarrow> golib" where
  "stdlib fmt =
     \<lparr>fmtValue = fmt, reflectDeepEqual = reflect_DeepEqual, jsonRoundTrip = json_round_trip\<rparr>"

section \<open>Secrets (pkg/secret/secret.go)\<close>

record Secret =
  Name :: string
  Data :: gomap
  Environment :: "Environment option"
  Tags :: gomap

definition New :: "string \<Rightarrow> Secret" where
  "New name = \<lparr>Name = name, Data = Some fmempty, Environment = None, Tags = Some fmempty\<rparr>"

text \<open>\<^verbatim>\<open>AddData\<close>, \<^verbatim>\<open>AddTags\<close>: every entry of the argument is stored, over an
  entry of the same key. Storing an entry in a nil map panics; with no entry
  to store, the loop does nothing.\<close>

definition AddData :: "Secret \<Rightarrow> gomap \<Rightarrow> error + Secret" where
  "AddData s data =
     (case Data s of
        Some m \<Rightarrow> Inr (s\<lparr>Data := Some (m ++\<^sub>f entries data)\<rparr>)
      | None \<Rightarrow> if entries data = fmempty then Inr s else Inl nilMapAssignment)"

definition AddTags :: "Secret \<Rightarrow> gomap \<Rightarrow> error + Secret" where
  "AddTags s tags =
     (case Tags s of
        Some m \<Rightarrow> Inr (s\<lparr>Tags := Some (m ++\<^sub>f entries tags)\<rparr>)
      | None \<Rightarrow> if entries tags = fmempty then Inr s else Inl nilMapAssignment)"

definition BelongsToEnv :: "Secret \<Rightarrow> Environment option \<Rightarrow> bool" where
  "BelongsToEnv s env =
     (case (env, Environment s) of
        (Some systemEnv, Some secretEnv) \<Rightarrow>
          if secretEnv = systemEnv then True
          else if secretEnv = GlobalEnv \<or> systemEnv = GlobalEnv then True
          else if (\<not> Production secretEnv \<and> systemEnv = NonprodEnv) \<or>
                  (secretEnv = NonprodEnv \<and> \<not> Production systemEnv) then True
          else False
      | _ \<Rightarrow> False)"

definition ContainsTag :: "Secret \<Rightarrow> string \<Rightarrow> bool" where
  "ContainsTag s key = (index (Tags s) key \<noteq> GNil)"

definition ContainsTagWithValue :: "Secret \<Rightarrow> string \<Rightarrow> gvalue \<Rightarrow> error + bool" where
  "ContainsTagWithValue s key val =
     (case interface_eq (index (Tags s) key) val of
        Inl e \<Rightarrow> Inl e
      | Inr b \<Rightarrow> if b then Inr True else Inr False)"

text \<open>\<^verbatim>\<open>helper.DeepEqual\<close> (pkg/helper/helper.go); a map argument, nil or not,
  becomes an interface value at the calls of the library.\<close>

definition DeepEqual :: "golib \<Rightarrow> gomap \<Rightarrow> gomap \<Rightarrow> bool" where
  "DeepEqual L m1 m2 =
     (if reflectDeepEqual L (asInterface m1) (asInterface m2) then True
      else
        let x1 = jsonRoundTrip L (asInterface m1);
            x2 = jsonRoundTrip L (asInterface m2)
        in if reflectDeepEqual L x1 x2 then True else False)"

definition EqualData :: "golib \<Rightarrow> Secret \<Rightarrow> Secret \<Rightarrow> bool" where
  "EqualData L s o' = DeepEqual L (Data s) (Data o')"

definition EqualName :: "Secret \<Rightarrow> Secret \<Rightarrow> bool" where
  "EqualName s o' = (Name s = Name o')"

definition EqualTags :: "golib \<Rightarrow> Secret \<Rightarrow> Secret \<Rightarrow> bool" where
  "EqualTags L s o' = DeepEqual L (Tags s) (Tags o')"

definition Equal :: "golib \<Rightarrow> Secret \<Rightarrow> Secret \<Rightarrow> bool" where
  "Equal L s o' = (EqualName s o' \<and> EqualData L s o' \<and> EqualTags L s o')"

definition GetEnvFromName :: "Secret \<Rightarrow> Environment option" where
  "GetEnvFromName s =
     (let nameSplit = Split (Name s) CHR ''-'';
          env = (if length nameSplit > 1 then nameSplit ! (length nameSplit - 1) else [])
      in GetEnvFromString env)"

definition GetTagValue :: "golib \<Rightarrow> Secret \<Rightarrow> string \<Rightarrow> string" where
  "GetTagValue L s key =
     (if ContainsTag s key then Sprintf_v L (index (Tags s) key) else [])"

definition GetEnvFromTags :: "golib \<Rightarrow> Secret \<Rightarrow> Environment option" where
  "GetEnvFromTags L s = GetEnvFromString (GetTagValue L s ''Environment'')"

definition GetEnv :: "golib \<Rightarrow> Secret \<Rightarrow> Environment option" where
  "GetEnv L s =
     (case Environment s of
        Some e \<Rightarrow> Some e
      | None \<Rightarrow>
          (case GetEnvFromName s of
             Some env \<Rightarrow> Some env
           | None \<Rightarrow>
               (case GetEnvFromTags L s of
                  Some env \<Rightarrow> Some env
                | None \<Rightarrow> None)))"

definition SetEnv :: "golib \<Rightarrow> Secret \<Rightarrow> Secret" where
  "SetEnv L s = s\<lparr>Environment := GetEnv L s\<rparr>"

definition TrimNameSuffix :: "Secret \<Rightarrow> string \<Rightarrow> Secret" where
  "TrimNameSuffix s suffix = s\<lparr>Name := TrimSuffix (Name s) suffix\<rparr>"

definition TrimNameEnv :: "Secret \<Rightarrow> Secret" where
  "TrimNameEnv s =
     (case GetEnvFromName s of
        Some env \<Rightarrow> TrimNameSuffix s (''-'' @ Environment.Name env)
      | None \<Rightarrow> s)"

text \<open>
  \<^verbatim>\<open>FilterByTags\<close>. The inner loop visits every entry of \<^verbatim>\<open>tags\<close> once, in an
  order Go does not fix, and never leaves early: it panics when some
  comparison panics, and otherwise \<^verbatim>\<open>containsTag\<close> ends true exactly when no
  comparison was false. The outer loop appends to \<^verbatim>\<open>filteredSecrets\<close> in the
  order of \<^verbatim>\<open>secrets\<close>.
\<close>

definition FilterByTags_containsTag :: "Secret \<Rightarrow> gomap \<Rightarrow> error + bool" where
  "FilterByTags_containsTag secret tags =
     (if fmpred (\<lambda>key val. \<not> isl (ContainsTagWithValue secret key val)) (entries tags)
      then Inr (fmpred (\<lambda>key val. ContainsTagWithValue secret key val = Inr True) (entries tags))
      else Inl uncomparable)"

fun FilterByTags_loop :: "Secret list \<Rightarrow> gomap \<Rightarrow> Secret list \<Rightarrow> error + Secret list" where
  "FilterByTags_loop [] tags filteredSecrets = Inr filteredSecrets"
| "FilterByTags_loop (secret # secrets) tags filteredSecrets =
     (case FilterByTags_containsTag secret tags of
        Inl e \<Rightarrow> Inl e
      | Inr containsTag \<Rightarrow>
          FilterByTags_loop secrets tags
            (if containsTag then filteredSecrets @ [secret] else filteredSecrets))"

definition FilterByTags :: "Secret list \<Rightarrow> gomap \<Rightarrow> error + (bool \<times> Secret list)" where
  "FilterByTags secrets tags =
     (if len tags > 0 then
        (case FilterByTags_loop secrets tags [] of
           Inl e \<Rightarrow> Inl e
         | Inr filteredSecrets \<Rightarrow> Inr (True, filteredSecrets))
      else Inr (False, secrets))"

text \<open>\<^verbatim>\<open>ParseFilterTags\<close>; \<^verbatim>\<open>log.Panicf\<close> logs the message and panics with it.
  The map \<^verbatim>\<open>tags\<close> is made by \<^verbatim>\<open>make\<close>, so it is not nil: the loop runs on its
  entries.\<close>

fun ParseFilterTags_loop ::
  "string list \<Rightarrow> (string, gvalue) fmap \<Rightarrow> error + (string, gvalue) fmap" where
  "ParseFilterTags_loop [] tags = Inr tags"
| "ParseFilterTags_loop (tag # rest) tags =
     (let kvs = Split tag CHR ''=''
      in if length kvs \<noteq> 2 then Inl (Panic (''Cannot parse tag filter '' @ [CHR 0x27] @ tag @ [CHR 0x27]))
         else ParseFilterTags_loop rest (fmupd (kvs ! 0) (GString (kvs ! 1)) tags))"

definition ParseFilterTags :: "string \<Rightarrow> error + gomap" where
  "ParseFilterTags tagsString =
     (if length tagsString > 0 then
        (case ParseFilterTags_loop (Split tagsString CHR '';'') fmempty of
           Inl e \<Rightarrow> Inl e
         | Inr tags \<Rightarrow> Inr (Some tags))
      else Inr (Some fmempty))"

section \<open>The Vault adapter (pkg/vault/vault.go)\<close>

text \<open>
  The server behind \<^verbatim>\<open>v.Client\<close>, a KV version 2 secrets engine, is outside
  the repository. It is modelled as an in-memory store: full paths with, for
  each, either the stored data and custom metadata or an error the server
  answers a read with, in the order the server lists them; and the trace of
  the write calls it has received. A write on the in-memory store succeeds
  and stores the map it is given.
  The client's \<^verbatim>\<open>Get\<close> returns a nil \<^verbatim>\<open>*KVSecret\<close> with every error, and an
  error for a path that is not stored.
\<close>

record KVSecret =
  kvData :: gomap
  kvCustomMetadata :: gomap

datatype kvitem = Stored KVSecret | Unreadable string

datatype call =
    Put string gomap
  | PutMetadata string gomap
  | DeleteMetadata string

record backend =
  kv :: "(string \<times> kvitem) list"
  calls :: "call list"

definition KVv2_Get :: "backend \<Rightarrow> string \<Rightarrow> KVSecret option \<times> string option" where
  "KVv2_Get b path =
     (case map_of (kv b) path of
        None \<Rightarrow> (None, Some ''secret not found'')
      | Some (Unreadable err) \<Rightarrow> (None, Some err)
      | Some (Stored vs) \<Rightarrow> (Some vs, None))"

definition KVv2_Put :: "backend \<Rightarrow> string \<Rightarrow> gomap \<Rightarrow> backend" where
  "KVv2_Put b path data =
     b\<lparr>kv := AList.update path
              (case map_of (kv b) path of
                 Some (Stored vs) \<Rightarrow> Stored (vs\<lparr>kvData := data\<rparr>)
               | _ \<Rightarrow> Stored \<lparr>kvData = data, kvCustomMetadata = Some fmempty\<rparr>) (kv b),
       calls := calls b @ [Put path data]\<rparr>"

definition KVv2_PutMetadata :: "backend \<Rightarrow> string \<Rightarrow> gomap \<Rightarrow> backend" where
  "KVv2_PutMetadata b path metadata =
     b\<lparr>kv := AList.update path
              (case map_of (kv b) path of
                 Some (Stored vs) \<Rightarrow> Stored (vs\<lparr>kvCustomMetadata := metadata\<rparr>)
               | _ \<Rightarrow> Stored \<lparr>kvData = Some fmempty, kvCustomMetadata = metadata\<rparr>) (kv b),
       calls := calls b @ [PutMetadata path metadata]\<rparr>"

definition KVv2_DeleteMetadata :: "backend \<Rightarrow> string \<Rightarrow> backend" where
  "KVv2_DeleteMetadata b path =
     b\<lparr>kv := AList.delete path (kv b), calls := calls b @ [DeleteMetadata path]\<rparr>"

text \<open>
  \<^verbatim>\<open>type Vault struct\<close>: the fields the reconciliation reads or writes. The
  address, the credentials and the engine's name only select the server.
\<close>

record Vault =
  Client :: backend
  Secrets :: "Secret list"

text \<open>
  \<^verbatim>\<open>getSecretKeys("")\<close> walks the engine's metadata tree with LIST calls and
  returns the full paths of its leaves; on the flat store these are the stored
  paths.
\<close>

definition getSecretKeys :: "Vault \<Rightarrow> string list" where
  "getSecretKeys v = map fst (kv (Client v))"

text \<open>
  \<^verbatim>\<open>getSecret\<close>: an error of \<^verbatim>\<open>Get\<close> is logged at error level, which does not
  leave the function; \<^verbatim>\<open>vs.Data\<close> is then read through \<^verbatim>\<open>vs\<close>, nil or not.
\<close>

definition getSecret :: "Vault \<Rightarrow> string \<Rightarrow> error + Secret" where
  "getSecret v path =
     (let secret = New path;
          (vs, err) = KVv2_Get (Client v) (Name secret)
      in case vs of
           None \<Rightarrow> Inl nilDereference
         | Some r \<Rightarrow>
             (case AddData secret (kvData r) of
                Inl e \<Rightarrow> Inl e
              | Inr secret' \<Rightarrow> AddTags secret' (kvCustomMetadata r)))"

fun GetSecrets_loop ::
  "golib \<Rightarrow> Vault \<Rightarrow> Environment \<Rightarrow> string list \<Rightarrow> Secret list \<Rightarrow> error + Secret list" where
  "GetSecrets_loop L v env [] secrets = Inr secrets"
| "GetSecrets_loop L v env (key # keys) secrets =
     (case getSecret v key of
        Inl e \<Rightarrow> Inl e
      | Inr s0 \<Rightarrow>
          let s = SetEnv L s0
          in if BelongsToEnv s (Some env)
             then GetSecrets_loop L v env keys
                    (secrets @ [if \<not> IsGroup env then TrimNameEnv s else s])
             else GetSecrets_loop L v env keys secrets)"

text \<open>\<^verbatim>\<open>GetSecrets\<close> returns \<^verbatim>\<open>v.Secrets\<close> after appending to it: the \<open>Secrets\<close> of
  the result.\<close>

definition GetSecrets :: "golib \<Rightarrow> Vault \<Rightarrow> Environment option \<Rightarrow> error + Vault" where
  "GetSecrets L v envP =
     (let env = (case envP of None \<Rightarrow> GlobalEnv | Some e \<Rightarrow> e)
      in case GetSecrets_loop L v env (getSecretKeys v) [] of
           Inl e \<Rightarrow> Inl e
         | Inr secrets \<Rightarrow> Inr (v\<lparr>Secrets := Secrets v @ secrets\<rparr>))"

definition putSecretData :: "Vault \<Rightarrow> Secret \<Rightarrow> Vault" where
  "putSecretData v secret = v\<lparr>Client := KVv2_Put (Client v) (Name secret) (Data secret)\<rparr>"

definition putSecretMetadata :: "Vault \<Rightarrow> Secret \<Rightarrow> Vault" where
  "putSecretMetadata v secret =
     v\<lparr>Client := KVv2_PutMetadata (Client v) (Name secret) (Tags secret)\<rparr>"

text \<open>\<^verbatim>\<open>UpdateChangedSecrets\<close>: the inner loop stops at the first current
  secret of the same name.\<close>

fun UpdateChangedSecrets :: "golib \<Rightarrow> Vault \<Rightarrow> Secret list \<Rightarrow> Vault" where
  "UpdateChangedSecrets L v [] = v"
| "UpdateChangedSecrets L v (new # newSecrets) =
     (let (updateData, updateTags) =
            (case find (\<lambda>cur. EqualName new cur) (Secrets v) of
               None \<Rightarrow> (True, True)
             | Some cur \<Rightarrow> (\<not> EqualData L new cur, \<not> EqualTags L new cur));
          v1 = (if updateData then putSecretData v new else v);
          v2 = (if updateTags then putSecretMetadata v1 new else v1)
      in UpdateChangedSecrets L v2 newSecrets)"

fun CleanRemovedSecrets_loop :: "Vault \<Rightarrow> Secret list \<Rightarrow> Secret list \<Rightarrow> Vault" where
  "CleanRemovedSecrets_loop v newSecrets [] = v"
| "CleanRemovedSecrets_loop v newSecrets (cur # rest) =
     (let secretFound = list_ex (\<lambda>new. EqualName cur new) newSecrets
      in if \<not> secretFound
         then CleanRemovedSecrets_loop
                (v\<lparr>Client := KVv2_DeleteMetadata (Client v) (Name cur)\<rparr>) newSecrets rest
         else CleanRemovedSecrets_loop v newSecrets rest)"

definition CleanRemovedSecrets :: "Vault \<Rightarrow> Secret list \<Rightarrow> Vault" where
  "CleanRemovedSecrets v newSecrets = CleanRemovedSecrets_loop v newSecrets (Secrets v)"

definition UpdateSecrets :: "golib \<Rightarrow> Vault \<Rightarrow> Secret list \<Rightarrow> error + Vault" where
  "UpdateSecrets L v newSecrets =
     (case GetSecrets L v None of
        Inl e \<Rightarrow> Inl e
      | Inr v1 \<Rightarrow> Inr (CleanRemovedSecrets (UpdateChangedSecrets L v1 newSecrets) newSecrets))"

text \<open>\<^verbatim>\<open>vault.New\<close> on a server: a fresh adapter, with no secrets read yet.\<close>

definition connect :: "backend \<Rightarrow> Vault" where
  "connect b = \<lparr>Client = b, Secrets = []\<rparr>"

text \<open>
  Two notions for stating what \<^verbatim>\<open>GetSecrets\<close> returns: what its loop body
  does with one fetched secret (nothing, or the secret it appends), and a
  server that answers every read of a listed path.
\<close>

definition keep :: "golib \<Rightarrow> Environment \<Rightarrow> Secret \<Rightarrow> Secret option" where
  "keep L env s0 =
     (let s = SetEnv L s0
      in if BelongsToEnv s (Some env)
         then Some (if \<not> IsGroup env then TrimNameEnv s else s) else None)"

definition allReadable :: "backend \<Rightarrow> bool" where
  "allReadable b =
     list_all (\<lambda>(path, item). case item of Stored vs \<Rightarrow> True | Unreadable err \<Rightarrow> False) (kv b)"

text \<open>A map of required tags as \<^verbatim>\<open>ParseFilterTags\<close> builds them: every value a
  string.\<close>

definition stringValued :: "gomap \<Rightarrow> bool" where
  "stringValued tags =
     fmpred (\<lambda>key val. case val of GString t \<Rightarrow> True | _ \<Rightarrow> False) (entries tags)"

section \<open>An instance of the library for concrete runs\<close>

text \<open>
  The examples below run the model on concrete inputs, which needs some
  \<open>golib\<close>: \<open>stdlib\<close> with a \<^verbatim>\<open>%v\<close> that prints nothing for a value that is
  not a string. No example prints such a value.
\<close>

definition exampleLib :: golib where
  "exampleLib = stdlib (\<lambda>x. [])"

section \<open>Maps\<close>

lemma entries_simps [simp]: "entries None = fmempty" "entries (Some e) = e"
  by (simp_all add: entries_def)

section \<open>Environment membership\<close>

lemmas env_defs = DevEnv_def TestEnv_def StagingEnv_def ProdEnv_def NonprodEnv_def GlobalEnv_def

lemma Name_fixedEnvs:
  "Environment.Name DevEnv = ''dev''" "Environment.Name TestEnv = ''test''"
  "Environment.Name StagingEnv = ''staging''" "Environment.Name ProdEnv = ''prod''"
  "Environment.Name NonprodEnv = ''nonprod''" "Environment.Name GlobalEnv = ''global''"
  by (simp_all add: env_defs)

lemma fixedEnvs_cases:
  assumes "E \<in> set fixedEnvs"
  obtains "E = DevEnv" | "E = TestEnv" | "E = StagingEnv" | "E = ProdEnv"
    | "E = NonprodEnv" | "E = GlobalEnv"
  using assms by (auto simp: fixedEnvs_def)

text \<open>
  C3. Each of the six environments belongs to itself; it belongs to global
  and global belongs to it; dev, test and staging belong to nonprod and
  nonprod to them; prod and nonprod do not belong to each other, in either
  order; and nothing belongs when the secret's environment or the target is
  nil. The first argument is the secret, carrying its environment, the second
  the target.
\<close>

theorem BelongsToEnv_membership:
  "(\<forall>E \<in> set fixedEnvs.
      BelongsToEnv (s\<lparr>Environment := Some E\<rparr>) (Some E) \<and>
      BelongsToEnv (s\<lparr>Environment := Some E\<rparr>) (Some GlobalEnv) \<and>
      BelongsToEnv (s\<lparr>Environment := Some GlobalEnv\<rparr>) (Some E)) \<and>
   (\<forall>E \<in> {DevEnv, TestEnv, StagingEnv}.
      BelongsToEnv (s\<lparr>Environment := Some E\<rparr>) (Some NonprodEnv) \<and>
      BelongsToEnv (s\<lparr>Environment := Some NonprodEnv\<rparr>) (Some E)) \<and>
   \<not> BelongsToEnv (s\<lparr>Environment := Some ProdEnv\<rparr>) (Some NonprodEnv) \<and>
   \<not> BelongsToEnv (s\<lparr>Environment := Some NonprodEnv\<rparr>) (Some ProdEnv) \<and>
   \<not> BelongsToEnv (s\<lparr>Environment := None\<rparr>) target \<and>
   \<not> BelongsToEnv s None"
  by (simp add: BelongsToEnv_def fixedEnvs_def env_defs split: option.split)

theorem BelongsToEnv_membership_witness:
  "DevEnv \<in> set fixedEnvs \<and> DevEnv \<in> {DevEnv, TestEnv, StagingEnv} \<and>
   BelongsToEnv ((New ''db'')\<lparr>Environment := Some DevEnv\<rparr>) (Some DevEnv) \<and>
   BelongsToEnv ((New ''db'')\<lparr>Environment := Some DevEnv\<rparr>) (Some GlobalEnv) \<and>
   BelongsToEnv ((New ''db'')\<lparr>Environment := Some GlobalEnv\<rparr>) (Some DevEnv) \<and>
   BelongsToEnv ((New ''db'')\<lparr>Environment := Some DevEnv\<rparr>) (Some NonprodEnv) \<and>
   BelongsToEnv ((New ''db'')\<lparr>Environment := Some NonprodEnv\<rparr>) (Some DevEnv)"
proof -
  have a: "DevEnv \<in> set fixedEnvs" by (simp add: fixedEnvs_def)
  have b: "DevEnv \<in> {DevEnv, TestEnv, StagingEnv}" by simp
  from BelongsToEnv_membership [of "New ''db''" None] a b show ?thesis by blast
qed

section \<open>Splitting a name\<close>

lemma Split_not_Nil: "Split s sep \<noteq> []"
  by (induction s) (auto split: list.split)

lemma Split_no_sep: "sep \<notin> set s \<Longrightarrow> Split s sep = [s]"
  by (induction s) auto

lemma Split_append: "Split (xs @ sep # ys) sep = Split xs sep @ Split ys sep"
proof (induction xs)
  case Nil
  show ?case by simp
next
  case (Cons x xs)
  obtain seg segs where sp: "Split xs sep = seg # segs"
    using Split_not_Nil [of xs sep] by (cases "Split xs sep") auto
  with Cons show ?case by simp
qed

lemma length_Split: "length (Split s sep) = Suc (length (filter (\<lambda>c. c = sep) s))"
proof (induction s)
  case Nil
  show ?case by simp
next
  case (Cons x xs)
  obtain seg segs where sp: "Split xs sep = seg # segs"
    using Split_not_Nil [of xs sep] by (cases "Split xs sep") auto
  with Cons show ?case by auto
qed


lemma GetEnvFromString_Some_iff:
  "GetEnvFromString x = Some E \<longleftrightarrow> E \<in> set fixedEnvs \<and> Environment.Name E = x"
proof
  assume "GetEnvFromString x = Some E"
  then show "E \<in> set fixedEnvs \<and> Environment.Name E = x"
    unfolding GetEnvFromString_def fixedEnvs_def
    by (simp split: if_splits) 
next
  assume "E \<in> set fixedEnvs \<and> Environment.Name E = x"
  then have "E \<in> set fixedEnvs" and x: "x = Environment.Name E" by simp_all
  then consider "E = DevEnv" | "E = TestEnv" | "E = StagingEnv" | "E = ProdEnv"
    | "E = NonprodEnv" | "E = GlobalEnv"
    by (auto simp: fixedEnvs_def)
  then show "GetEnvFromString x = Some E"
    unfolding x GetEnvFromString_def
    by cases (simp_all add: Name_fixedEnvs)
qed


lemma GetEnvFromString_Nil: "GetEnvFromString [] = None"
  by (simp add: GetEnvFromString_def Name_fixedEnvs)

lemma fixedEnvs_no_dash: "E \<in> set fixedEnvs \<Longrightarrow> CHR ''-'' \<notin> set (Environment.Name E)"
proof -
  assume "E \<in> set fixedEnvs"
  then consider "E = DevEnv" | "E = TestEnv" | "E = StagingEnv" | "E = ProdEnv"
    | "E = NonprodEnv" | "E = GlobalEnv"
    by (auto simp: fixedEnvs_def)
  then show ?thesis by cases (simp_all add: Name_fixedEnvs)
qed

lemma Split_last_decomp:
  "length (Split s sep) > 1 \<Longrightarrow>
     \<exists>pre. s = pre @ sep # last (Split s sep)"
proof (induction s)
  case Nil
  then show ?case by simp
next
  case (Cons x xs)
  obtain seg segs where sp: "Split xs sep = seg # segs"
    using Split_not_Nil [of xs sep] by (cases "Split xs sep") auto
  show ?case
  proof (cases "length (Split xs sep) > 1")
    case True
    with Cons.IH obtain pre where p: "xs = pre @ sep # last (Split xs sep)" by blast
    from True sp have "segs \<noteq> []" by auto
    with sp have "last (Split (x # xs) sep) = last (Split xs sep)" by auto
    with p have "x # xs = (x # pre) @ sep # last (Split (x # xs) sep)" by simp
    then show ?thesis by blast
  next
    case False
    with sp have segs: "segs = []" by auto
    have nosep: "sep \<notin> set xs"
    proof
      assume "sep \<in> set xs"
      then have "filter (\<lambda>c. c = sep) xs \<noteq> []" by (auto simp: filter_empty_conv)
      then have "length (Split xs sep) > 1" by (simp add: length_Split)
      with False show False by simp
    qed
    from Cons.prems sp segs have xsep: "x = sep" by (auto split: if_splits)
    from nosep have "Split xs sep = [xs]" by (rule Split_no_sep)
    with xsep have "last (Split (x # xs) sep) = xs" by simp
    with xsep have "x # xs = [] @ sep # last (Split (x # xs) sep)" by simp
    then show ?thesis by blast
  qed
qed

lemma Split_last_suffix:
  "sep \<notin> set e \<Longrightarrow> Split (pre @ sep # e) sep = Split pre sep @ [e]"
  by (simp add: Split_append Split_no_sep)


lemma GetEnvFromName_unfold:
  "GetEnvFromName s =
     (if length (Split (Name s) CHR ''-'') > 1
      then GetEnvFromString (last (Split (Name s) CHR ''-'')) else None)"
  by (simp add: GetEnvFromName_def Let_def GetEnvFromString_Nil last_conv_nth Split_not_Nil)

lemma GetEnvFromName_Some_iff:
  "GetEnvFromName s = Some E \<longleftrightarrow>
     E \<in> set fixedEnvs \<and> (\<exists>pre. Name s = pre @ ''-'' @ Environment.Name E)"
proof
  assume a: "GetEnvFromName s = Some E"
  let ?segs = "Split (Name s) CHR ''-''"
  from a have len: "length ?segs > 1"
    by (simp add: GetEnvFromName_unfold split: if_splits)
  with a have "GetEnvFromString (last ?segs) = Some E"
    by (simp add: GetEnvFromName_unfold)
  then have E: "E \<in> set fixedEnvs" and l: "last ?segs = Environment.Name E"
    by (simp_all add: GetEnvFromString_Some_iff)
  from Split_last_decomp [OF len] obtain pre where "Name s = pre @ CHR ''-'' # last ?segs"
    by blast
  with l have "Name s = pre @ ''-'' @ Environment.Name E" by simp
  with E show "E \<in> set fixedEnvs \<and> (\<exists>pre. Name s = pre @ ''-'' @ Environment.Name E)"
    by blast
next
  assume "E \<in> set fixedEnvs \<and> (\<exists>pre. Name s = pre @ ''-'' @ Environment.Name E)"
  then obtain pre where E: "E \<in> set fixedEnvs" and n: "Name s = pre @ CHR ''-'' # Environment.Name E"
    by auto
  from E have "CHR ''-'' \<notin> set (Environment.Name E)" by (rule fixedEnvs_no_dash)
  then have sp: "Split (Name s) CHR ''-'' = Split pre CHR ''-'' @ [Environment.Name E]"
    unfolding n by (rule Split_last_suffix)
  have "Split pre CHR ''-'' \<noteq> []" by (rule Split_not_Nil)
  then have "length (Split pre CHR ''-'') > 0" by simp
  with sp have "GetEnvFromName s = GetEnvFromString (Environment.Name E)"
    by (simp add: GetEnvFromName_unfold)
  with E show "GetEnvFromName s = Some E"
    by (simp add: GetEnvFromString_Some_iff)
qed


lemma GetEnv_explicit: "Environment s = Some e \<Longrightarrow> GetEnv L s = Some e"
  by (simp add: GetEnv_def)

lemma GetEnv_unfold:
  "GetEnv L s =
     (case Environment s of Some e \<Rightarrow> Some e
      | None \<Rightarrow> (case GetEnvFromName s of Some e \<Rightarrow> Some e | None \<Rightarrow> GetEnvFromTags L s))"
  by (simp add: GetEnv_def split: option.split)

lemma GetEnvFromName_SetEnv: "GetEnvFromName (SetEnv L s) = GetEnvFromName s"
  by (simp add: GetEnvFromName_def SetEnv_def)

lemma GetEnvFromTags_SetEnv: "GetEnvFromTags L (SetEnv L s) = GetEnvFromTags L s"
  by (simp add: GetEnvFromTags_def GetTagValue_def ContainsTag_def SetEnv_def)

lemma GetEnv_SetEnv: "GetEnv L (SetEnv L s) = GetEnv L s"
proof (cases "GetEnv L s")
  case None
  then have "Environment s = None" by (auto simp: GetEnv_unfold split: option.splits)
  with None have "SetEnv L s = s" by (simp add: SetEnv_def)
  then show ?thesis by simp
next
  case (Some e)
  then have "Environment (SetEnv L s) = Some e" by (simp add: SetEnv_def)
  then have "GetEnv L (SetEnv L s) = Some e" by (rule GetEnv_explicit)
  with Some show ?thesis by simp
qed

lemma GetEnv_unset:
  assumes "Environment s = None"
  shows "GetEnv L s =
        (let nameSplit = Split (Name s) CHR ''-'' in
         if length nameSplit > 1 \<and> last nameSplit \<in> set (map Environment.Name fixedEnvs)
         then GetEnvFromString (last nameSplit)
         else GetEnvFromString (GetTagValue L s ''Environment''))"
proof -
  let ?segs = "Split (Name s) CHR ''-''"
  show ?thesis
  proof (cases "length ?segs > 1 \<and> last ?segs \<in> set (map Environment.Name fixedEnvs)")
    case True
    then obtain E where E: "E \<in> set fixedEnvs" "Environment.Name E = last ?segs" by auto
    then have "GetEnvFromString (last ?segs) = Some E" by (simp add: GetEnvFromString_Some_iff)
    with True assms show ?thesis
      by (simp add: GetEnv_unfold GetEnvFromName_unfold Let_def del: set_map)
  next
    case False
    have "GetEnvFromName s = None"
    proof (cases "length ?segs > 1")
      case l: True
      with False have n: "last ?segs \<notin> set (map Environment.Name fixedEnvs)" by simp
      have "GetEnvFromString (last ?segs) = None"
      proof (cases "GetEnvFromString (last ?segs)")
        case None then show ?thesis .
      next
        case (Some E)
        then have "E \<in> set fixedEnvs \<and> Environment.Name E = last ?segs"
          by (simp add: GetEnvFromString_Some_iff)
        with n show ?thesis by force
      qed
      with l show ?thesis by (simp add: GetEnvFromName_unfold)
    next
      case False
      then show ?thesis by (simp add: GetEnvFromName_unfold)
    qed
    with False assms show ?thesis
      by (auto simp add: GetEnv_unfold GetEnvFromTags_def Let_def simp del: set_map)
  qed
qed

lemma GetTagValue_unfold:
  "GetTagValue L s key =
     (if index (Tags s) key = GNil then [] else Sprintf_v L (index (Tags s) key))"
  by (simp add: GetTagValue_def ContainsTag_def)

lemma GetEnv_db_prod: "GetEnv L (New ''db-prod'') = Some ProdEnv"
proof -
  have "ProdEnv \<in> set fixedEnvs" by (simp add: fixedEnvs_def)
  moreover have "Name (New ''db-prod'') = ''db'' @ ''-'' @ Environment.Name ProdEnv"
    by (simp add: New_def Name_fixedEnvs)
  ultimately have "GetEnvFromName (New ''db-prod'') = Some ProdEnv"
    unfolding GetEnvFromName_Some_iff by blast
  then show ?thesis by (simp add: GetEnv_unfold New_def)
qed

lemma GetEnvFromName_db: "GetEnvFromName (s\<lparr>Name := ''db''\<rparr>) = None"
  by (simp add: GetEnvFromName_unfold)

lemma GetEnv_db_staging:
  "GetEnv L ((New ''db'')\<lparr>Tags := Some (fmupd ''Environment'' (GString ''staging'') fmempty)\<rparr>) =
     Some StagingEnv"
proof -
  let ?s = "(New ''db'')\<lparr>Tags := Some (fmupd ''Environment'' (GString ''staging'') fmempty)\<rparr>"
  have n: "GetEnvFromName ?s = None"
    by (simp add: GetEnvFromName_unfold New_def)
  have "GetTagValue L ?s ''Environment'' = ''staging''"
    by (simp add: GetTagValue_unfold New_def index_def entries_def Sprintf_v_def)
  then have "GetEnvFromTags L ?s = Some StagingEnv"
    by (simp add: GetEnvFromTags_def GetEnvFromString_Some_iff fixedEnvs_def Name_fixedEnvs)
  with n show ?thesis by (simp add: GetEnv_unfold New_def)
qed

lemma GetEnv_db: "GetEnv L (New ''db'') = None"
proof -
  have n: "GetEnvFromName (New ''db'') = None"
    by (simp add: GetEnvFromName_unfold New_def)
  have "GetTagValue L (New ''db'') ''Environment'' = []"
    by (simp add: GetTagValue_unfold New_def index_def entries_def)
  then have "GetEnvFromTags L (New ''db'') = None"
    by (simp add: GetEnvFromTags_def GetEnvFromString_Nil)
  with n show ?thesis by (simp add: GetEnv_unfold New_def)
qed

text \<open>
  C4. A secret whose environment is set resolves to it, whatever its name
  and tags are, so resolving after \<^verbatim>\<open>SetEnv\<close> gives the same result. With no
  environment set, the last of several segments of the name split at the
  dashes decides when it is one of the six names; otherwise the printed value
  of the \<^verbatim>\<open>Environment\<close> tag (the empty string when the tag is missing or
  nil, the string itself for a string) is looked up among the six names, and
  any other string gives nil. So \<^verbatim>\<open>db-prod\<close> resolves to prod, \<^verbatim>\<open>db\<close> with the tag
  \<^verbatim>\<open>Environment=staging\<close> to staging, and \<^verbatim>\<open>db\<close> alone to nil.
\<close>

theorem GetEnv_precedence:
  "(Environment s = Some e \<longrightarrow> GetEnv L s = Some e) \<and>
   GetEnv L (SetEnv L s) = GetEnv L s \<and>
   (Environment s = None \<longrightarrow>
      GetEnv L s =
        (let nameSplit = Split (Name s) CHR ''-'' in
         if length nameSplit > 1 \<and> last nameSplit \<in> set (map Environment.Name fixedEnvs)
         then GetEnvFromString (last nameSplit)
         else GetEnvFromString (GetTagValue L s ''Environment''))) \<and>
   GetTagValue L s ''Environment'' =
     (if index (Tags s) ''Environment'' = GNil then []
      else Sprintf_v L (index (Tags s) ''Environment'')) \<and>
   Sprintf_v L (GString t) = t \<and>
   (GetEnvFromString x = Some E \<longleftrightarrow> E \<in> set fixedEnvs \<and> Environment.Name E = x) \<and>
   GetEnv L (New ''db-prod'') = Some ProdEnv \<and>
   GetEnv L ((New ''db'')\<lparr>Tags := Some (fmupd ''Environment'' (GString ''staging'') fmempty)\<rparr>) =
     Some StagingEnv \<and>
   GetEnv L (New ''db'') = None"
proof -
  have "Sprintf_v L (GString t) = t" by (simp add: Sprintf_v_def)
  then show ?thesis
    using GetEnv_explicit [of s e L] GetEnv_SetEnv [of L s] GetEnv_unset [of s L]
      GetTagValue_unfold [of L s "''Environment''"] GetEnvFromString_Some_iff [of x E]
      GetEnv_db_prod [of L] GetEnv_db_staging [of L] GetEnv_db [of L]
    by blast
qed

theorem GetEnv_precedence_witness:
  "Environment ((New ''db-prod'')\<lparr>Environment := Some DevEnv\<rparr>) = Some DevEnv \<and>
   GetEnv exampleLib ((New ''db-prod'')\<lparr>Environment := Some DevEnv\<rparr>) = Some DevEnv \<and>
   Environment (New ''db-test'') = None \<and>
   GetEnv exampleLib (New ''db-test'') = Some TestEnv \<and>
   GetEnvFromString ''test'' = Some TestEnv"
proof -
  have a: "Environment ((New ''db-prod'')\<lparr>Environment := Some DevEnv\<rparr>) = Some DevEnv"
    by simp
  have b: "Environment (New ''db-test'') = None" by (simp add: New_def)
  have c: "Split (Name (New ''db-test'')) CHR ''-'' = [''db'', ''test'']"
    by (simp add: New_def)
  have d: "TestEnv \<in> set fixedEnvs \<and> Environment.Name TestEnv = ''test''"
    by (simp add: fixedEnvs_def Name_fixedEnvs)
  have e: "GetEnvFromString ''test'' = Some TestEnv"
    using GetEnv_precedence [of _ _ _ _ "''test''" TestEnv] d by blast
  have f: "GetEnv exampleLib (New ''db-test'') = Some TestEnv"
    using GetEnv_precedence [of "New ''db-test''" _ exampleLib] b c e
    by (simp add: fixedEnvs_def Name_fixedEnvs)
  from GetEnv_precedence [of "(New ''db-prod'')\<lparr>Environment := Some DevEnv\<rparr>" DevEnv exampleLib]
    a b e f show ?thesis by blast
qed

section \<open>The fetch-and-scope pipeline\<close>

lemma HasSuffix_iff: "HasSuffix s suffix \<longleftrightarrow> (\<exists>pre. s = pre @ suffix)"
proof
  assume "HasSuffix s suffix"
  then have "drop (length s - length suffix) s = suffix" by (simp add: HasSuffix_def)
  then have "take (length s - length suffix) s @ suffix = s"
    using append_take_drop_id [of "length s - length suffix" s] by simp
  then have "s = take (length s - length suffix) s @ suffix" by simp
  then show "\<exists>pre. s = pre @ suffix" ..
next
  assume "\<exists>pre. s = pre @ suffix"
  then show "HasSuffix s suffix" by (auto simp: HasSuffix_def)
qed

lemma TrimSuffix_append: "TrimSuffix (pre @ suffix) suffix = pre"
  by (simp add: TrimSuffix_def HasSuffix_def)

lemma TrimSuffix_no_suffix: "\<not> HasSuffix s suffix \<Longrightarrow> TrimSuffix s suffix = s"
  by (simp add: TrimSuffix_def)

lemma getSecret_fresh:
  "getSecret v key = Inr s0 \<Longrightarrow> Name s0 = key \<and> Environment s0 = None"
  by (auto simp: getSecret_def Let_def New_def AddData_def AddTags_def
      split: prod.splits option.splits)

lemma getSecret_Stored:
  "map_of (kv (Client v)) key = Some (Stored r) \<Longrightarrow>
   getSecret v key =
     Inr \<lparr>Name = key, Data = Some (entries (kvData r)), Environment = None, Tags = Some (entries (kvCustomMetadata r))\<rparr>"
  by (simp add: getSecret_def Let_def New_def AddData_def AddTags_def KVv2_Get_def)

lemma Name_SetEnv: "Name (SetEnv L s) = Name s"
  by (simp add: SetEnv_def)

lemma Environment_SetEnv: "Environment (SetEnv L s) = GetEnv L s"
  by (simp add: SetEnv_def)

lemma GetEnv_in_fixedEnvs:
  assumes "Environment s = None" and "GetEnv L s = Some E"
  shows "E \<in> set fixedEnvs"
proof (cases "GetEnvFromName s")
  case None
  with assms have "GetEnvFromString (GetTagValue L s ''Environment'') = Some E"
    by (simp add: GetEnv_unfold GetEnvFromTags_def)
  then show ?thesis by (simp add: GetEnvFromString_Some_iff)
next
  case (Some E')
  with assms have "E' = E" by (simp add: GetEnv_unfold)
  with Some show ?thesis by (simp add: GetEnvFromName_Some_iff)
qed

lemma Name_TrimNameEnv_resolved:
  assumes "Environment s = None" and "GetEnv L s = Some E"
  shows "Name (TrimNameEnv (SetEnv L s)) = TrimSuffix (Name s) (''-'' @ Environment.Name E)"
proof (cases "GetEnvFromName s")
  case None
  from assms have E: "E \<in> set fixedEnvs" by (rule GetEnv_in_fixedEnvs)
  have "\<not> HasSuffix (Name s) (''-'' @ Environment.Name E)"
  proof
    assume "HasSuffix (Name s) (''-'' @ Environment.Name E)"
    then obtain pre where "Name s = pre @ ''-'' @ Environment.Name E"
      unfolding HasSuffix_iff by blast
    with E have "GetEnvFromName s = Some E" unfolding GetEnvFromName_Some_iff by blast
    with None show False by simp
  qed
  then have "TrimSuffix (Name s) (''-'' @ Environment.Name E) = Name s"
    by (rule TrimSuffix_no_suffix)
  moreover from None have "TrimNameEnv (SetEnv L s) = SetEnv L s"
    by (simp add: TrimNameEnv_def GetEnvFromName_SetEnv)
  ultimately show ?thesis by (simp add: Name_SetEnv)
next
  case (Some E')
  with assms have "E' = E" by (simp add: GetEnv_unfold)
  with Some show ?thesis
    by (simp add: TrimNameEnv_def GetEnvFromName_SetEnv TrimNameSuffix_def Name_SetEnv)
qed

lemma Environment_TrimNameEnv: "Environment (TrimNameEnv s) = Environment s"
  by (simp add: TrimNameEnv_def TrimNameSuffix_def split: option.split)

lemma keep_Some:
  assumes "Environment s0 = None" and "keep L env s0 = Some s"
  shows "\<exists>E. GetEnv L s0 = Some E \<and> Environment s = Some E \<and>
             BelongsToEnv (SetEnv L s0) (Some env) \<and>
             Name s = (if IsGroup env then Name s0
                       else TrimSuffix (Name s0) (''-'' @ Environment.Name E))"
proof -
  from assms(2) have b: "BelongsToEnv (SetEnv L s0) (Some env)"
    and s: "s = (if \<not> IsGroup env then TrimNameEnv (SetEnv L s0) else SetEnv L s0)"
    by (simp_all add: keep_def Let_def split: if_splits)
  from b obtain E where E: "GetEnv L s0 = Some E"
    by (cases "GetEnv L s0") (simp_all add: BelongsToEnv_def Environment_SetEnv)
  from s E have "Environment s = Some E"
    by (simp add: Environment_TrimNameEnv Environment_SetEnv)
  moreover from s have "Name s = (if IsGroup env then Name s0
                       else TrimSuffix (Name s0) (''-'' @ Environment.Name E))"
    using Name_TrimNameEnv_resolved [OF assms(1) E] by (simp add: Name_SetEnv)
  ultimately show ?thesis using b E by blast
qed

lemma GetSecrets_loop_keep:
  "GetSecrets_loop L v env keys secrets = Inr out \<Longrightarrow>
     \<exists>fetched. map (getSecret v) keys = map Inr fetched \<and>
       out = secrets @ List.map_filter (keep L env) fetched"
proof (induction keys arbitrary: secrets)
  case Nil
  then show ?case by (simp add: List.map_filter_simps)
next
  case (Cons key keys)
  from Cons.prems obtain s0 where g: "getSecret v key = Inr s0"
    by (cases "getSecret v key") simp_all
  show ?case
  proof (cases "keep L env s0")
    case None
    with g Cons.prems have "GetSecrets_loop L v env keys secrets = Inr out"
      by (simp add: keep_def Let_def split: if_splits)
    from Cons.IH [OF this] obtain fetched where
      "map (getSecret v) keys = map Inr fetched" "out = secrets @ List.map_filter (keep L env) fetched"
      by blast
    with g None have "map (getSecret v) (key # keys) = map Inr (s0 # fetched) \<and>
       out = secrets @ List.map_filter (keep L env) (s0 # fetched)"
      by (simp add: List.map_filter_simps)
    then show ?thesis by blast
  next
    case (Some s)
    with g Cons.prems have "GetSecrets_loop L v env keys (secrets @ [s]) = Inr out"
      by (simp add: keep_def Let_def split: if_splits)
    from Cons.IH [OF this] obtain fetched where
      "map (getSecret v) keys = map Inr fetched" "out = (secrets @ [s]) @ List.map_filter (keep L env) fetched"
      by blast
    with g Some have "map (getSecret v) (key # keys) = map Inr (s0 # fetched) \<and>
       out = secrets @ List.map_filter (keep L env) (s0 # fetched)"
      by (simp add: List.map_filter_simps)
    then show ?thesis by blast
  qed
qed

lemma GetSecrets_loop_total:
  "map (getSecret v) keys = map Inr fetched \<Longrightarrow>
     GetSecrets_loop L v env keys secrets = Inr (secrets @ List.map_filter (keep L env) fetched)"
proof (induction keys arbitrary: secrets fetched)
  case Nil
  then show ?case by (simp add: List.map_filter_simps)
next
  case (Cons key keys)
  from Cons.prems obtain s0 rest where f: "fetched = s0 # rest" and g: "getSecret v key = Inr s0"
    and r: "map (getSecret v) keys = map Inr rest"
    by (cases fetched) auto
  show ?case
  proof (cases "keep L env s0")
    case None
    with g f Cons.IH [OF r, of secrets] show ?thesis
      by (simp add: keep_def Let_def List.map_filter_simps split: if_splits)
  next
    case (Some s)
    with g f Cons.IH [OF r, of "secrets @ [s]"] show ?thesis
      by (simp add: keep_def Let_def List.map_filter_simps split: if_splits)
  qed
qed


lemma allReadable_getSecret:
  assumes "allReadable (Client v)" and "key \<in> set (getSecretKeys v)"
  shows "\<exists>r. map_of (kv (Client v)) key = Some (Stored r)"
proof -
  from assms(2) have "key \<in> fst ` set (kv (Client v))" by (simp add: getSecretKeys_def)
  then have "map_of (kv (Client v)) key \<noteq> None" by (simp add: map_of_eq_None_iff)
  then obtain item where m: "map_of (kv (Client v)) key = Some item" by blast
  then have "(key, item) \<in> set (kv (Client v))" by (rule map_of_SomeD)
  with assms(1) obtain r where "item = Stored r"
    by (cases item) (auto simp: allReadable_def list_all_iff)
  with m show ?thesis by blast
qed

lemma allReadable_fetched:
  assumes "allReadable (Client v)" and "set keys \<subseteq> set (getSecretKeys v)"
  shows "\<exists>fetched. map (getSecret v) keys = map Inr fetched"
  using assms(2)
proof (induction keys)
  case Nil
  then show ?case by simp
next
  case (Cons key keys)
  then obtain fetched where f: "map (getSecret v) keys = map Inr fetched" by auto
  from Cons.prems have "key \<in> set (getSecretKeys v)" by simp
  with assms(1) obtain r where "map_of (kv (Client v)) key = Some (Stored r)"
    using allReadable_getSecret by blast
  then obtain s0 where "getSecret v key = Inr s0" using getSecret_Stored by blast
  with f have "map (getSecret v) (key # keys) = map Inr (s0 # fetched)" by simp
  then show ?case by blast
qed

lemma fetched_fresh:
  assumes "map (getSecret v) keys = map Inr fetched" and "s0 \<in> set fetched"
  shows "Environment s0 = None \<and> Name s0 \<in> set keys"
proof -
  from assms(2) obtain i where i: "i < length fetched" "fetched ! i = s0"
    by (auto simp: in_set_conv_nth)
  from assms(1) have "length (map (getSecret v) keys) = length (map Inr fetched)" by simp
  then have l: "length keys = length fetched" by simp
  from assms(1) have "map (getSecret v) keys ! i = map Inr fetched ! i" by simp
  with i l have "getSecret v (keys ! i) = Inr s0" by simp
  then have "Name s0 = keys ! i \<and> Environment s0 = None" by (rule getSecret_fresh)
  with i l show ?thesis by simp
qed


lemma GetSecrets_Inr:
  assumes "map (getSecret v) (getSecretKeys v) = map Inr fetched"
  shows "GetSecrets L v (Some env) =
           Inr (v\<lparr>Secrets := Secrets v @ List.map_filter (keep L env) fetched\<rparr>)"
  using GetSecrets_loop_total [OF assms, of L env "[]"]
  by (simp add: GetSecrets_def)

lemma set_map_filter: "set (List.map_filter f xs) = {y. \<exists>x \<in> set xs. f x = Some y}"
  by (induction xs) (auto simp: List.map_filter_simps split: option.splits)


lemma keep_suffixed:
  assumes n: "Name s0 = pre @ ''-'' @ Environment.Name E" and E: "E \<in> set fixedEnvs"
    and e: "Environment s0 = None"
    and b: "BelongsToEnv (s0\<lparr>Environment := Some E\<rparr>) (Some env)"
  shows "keep L env s0 =
           Some (s0\<lparr>Name := (if IsGroup env then Name s0 else pre), Environment := Some E\<rparr>)"
proof -
  from n E have g: "GetEnvFromName s0 = Some E" unfolding GetEnvFromName_Some_iff by blast
  with e have r: "GetEnv L s0 = Some E" by (simp add: GetEnv_unfold)
  then have se: "SetEnv L s0 = s0\<lparr>Environment := Some E\<rparr>" by (simp add: SetEnv_def)
  have "GetEnvFromName (s0\<lparr>Environment := Some E\<rparr>) = Some E"
    using g by (simp add: GetEnvFromName_def)
  then have "TrimNameEnv (s0\<lparr>Environment := Some E\<rparr>) =
      s0\<lparr>Name := pre, Environment := Some E\<rparr>"
    using n by (simp add: TrimNameEnv_def TrimNameSuffix_def TrimSuffix_append)
  with se b show ?thesis by (simp add: keep_def Let_def)
qed

lemma GetSecrets_single:
  assumes "kv (Client v) = [(key, Stored r)]"
  shows "GetSecrets L v (Some env) =
     Inr (v\<lparr>Secrets := Secrets v @ List.map_filter (keep L env)
            [\<lparr>Name = key, Data = Some (entries (kvData r)), Environment = None, Tags = Some (entries (kvCustomMetadata r))\<rparr>]\<rparr>)"
proof -
  from assms have "map_of (kv (Client v)) key = Some (Stored r)" by simp
  then have "getSecret v key =
     Inr \<lparr>Name = key, Data = Some (entries (kvData r)), Environment = None, Tags = Some (entries (kvCustomMetadata r))\<rparr>"
    by (rule getSecret_Stored)
  with assms have "map (getSecret v) (getSecretKeys v) =
     map Inr [\<lparr>Name = key, Data = Some (entries (kvData r)), Environment = None, Tags = Some (entries (kvCustomMetadata r))\<rparr>]"
    by (simp add: getSecretKeys_def)
  then show ?thesis by (rule GetSecrets_Inr)
qed

lemma GetSecrets_single_suffixed:
  assumes k: "kv (Client v) = [(pre @ ''-'' @ Environment.Name E, Stored r)]"
    and E: "E \<in> set fixedEnvs"
    and b: "BelongsToEnv (s\<lparr>Environment := Some E\<rparr>) (Some env)"
  shows "GetSecrets L v (Some env) =
     Inr (v\<lparr>Secrets := Secrets v @
            [\<lparr>Name = (if IsGroup env then pre @ ''-'' @ Environment.Name E else pre),
              Data = Some (entries (kvData r)), Environment = Some E, Tags = Some (entries (kvCustomMetadata r))\<rparr>]\<rparr>)"
proof -
  let ?s0 = "\<lparr>Name = pre @ ''-'' @ Environment.Name E, Data = Some (entries (kvData r)), Environment = None,
              Tags = Some (entries (kvCustomMetadata r))\<rparr>"
  from b have "BelongsToEnv (?s0\<lparr>Environment := Some E\<rparr>) (Some env)"
    by (simp add: BelongsToEnv_def)
  then have "keep L env ?s0 =
           Some (?s0\<lparr>Name := (if IsGroup env then Name ?s0 else pre), Environment := Some E\<rparr>)"
    using E by (intro keep_suffixed) simp_all
  then show ?thesis
    unfolding GetSecrets_single [OF k] by (simp add: List.map_filter_simps)
qed

lemma IsGroup_fixedEnvs:
  "\<not> IsGroup DevEnv" "\<not> IsGroup TestEnv" "\<not> IsGroup StagingEnv" "\<not> IsGroup ProdEnv"
  "IsGroup NonprodEnv" "IsGroup GlobalEnv"
  by (simp_all add: env_defs)

text \<open>
  C5. On a server that answers every read, \<^verbatim>\<open>GetSecrets\<close> for a target
  environment returns, and each secret it appends comes from a listed path:
  under a group target it keeps the path as its name, under any other target
  its name is the path with the suffix dash-plus-name of its resolved
  environment trimmed. Trimming removes one occurrence of the suffix, at the
  end. The path \<^verbatim>\<open>apps/my-app/db-password-dev\<close> comes out as
  \<^verbatim>\<open>apps/my-app/db-password\<close> for the target dev and unchanged for the target
  nonprod.
\<close>

theorem GetSecrets_trim_on_sync:
  "(allReadable (Client v) \<longrightarrow>
      (\<exists>kept.
         GetSecrets L v (Some env) = Inr (v\<lparr>Secrets := Secrets v @ kept\<rparr>) \<and>
         (\<forall>s \<in> set kept. \<exists>key \<in> set (getSecretKeys v). \<exists>E.
            Environment s = Some E \<and>
            Name s = (if IsGroup env then key
                      else TrimSuffix key (''-'' @ Environment.Name E))))) \<and>
   TrimSuffix (pre @ suffix) suffix = pre \<and>
   GetSecrets L (connect \<lparr>kv = [(''apps/my-app/db-password-dev'', Stored r)], calls = []\<rparr>)
       (Some DevEnv) =
     Inr \<lparr>Client = \<lparr>kv = [(''apps/my-app/db-password-dev'', Stored r)], calls = []\<rparr>,
          Secrets = [\<lparr>Name = ''apps/my-app/db-password'', Data = Some (entries (kvData r)),
                      Environment = Some DevEnv, Tags = Some (entries (kvCustomMetadata r))\<rparr>]\<rparr> \<and>
   GetSecrets L (connect \<lparr>kv = [(''apps/my-app/db-password-dev'', Stored r)], calls = []\<rparr>)
       (Some NonprodEnv) =
     Inr \<lparr>Client = \<lparr>kv = [(''apps/my-app/db-password-dev'', Stored r)], calls = []\<rparr>,
          Secrets = [\<lparr>Name = ''apps/my-app/db-password-dev'', Data = Some (entries (kvData r)),
                      Environment = Some DevEnv, Tags = Some (entries (kvCustomMetadata r))\<rparr>]\<rparr>"
proof (intro conjI impI)
  assume readable: "allReadable (Client v)"
  then obtain fetched where f: "map (getSecret v) (getSecretKeys v) = map Inr fetched"
    using allReadable_fetched [of v "getSecretKeys v"] by auto
  let ?kept = "List.map_filter (keep L env) fetched"
  have main: "\<exists>key \<in> set (getSecretKeys v). \<exists>E. Environment s = Some E \<and>
              Name s = (if IsGroup env then key
                        else TrimSuffix key (''-'' @ Environment.Name E))"
    if "s \<in> set ?kept" for s
  proof -
    from that obtain s0 where s0: "s0 \<in> set fetched" "keep L env s0 = Some s"
      by (auto simp: set_map_filter)
    from fetched_fresh [OF f s0(1)] have e: "Environment s0 = None"
      and k: "Name s0 \<in> set (getSecretKeys v)" by simp_all
    from keep_Some [OF e s0(2)] k show ?thesis by blast
  qed
  show "\<exists>kept.
           GetSecrets L v (Some env) = Inr (v\<lparr>Secrets := Secrets v @ kept\<rparr>) \<and>
           (\<forall>s \<in> set kept. \<exists>key \<in> set (getSecretKeys v). \<exists>E.
              Environment s = Some E \<and>
              Name s = (if IsGroup env then key
                        else TrimSuffix key (''-'' @ Environment.Name E)))"
  proof (intro exI conjI ballI)
    show "GetSecrets L v (Some env) = Inr (v\<lparr>Secrets := Secrets v @ ?kept\<rparr>)"
      by (rule GetSecrets_Inr [OF f])
  next
    fix s assume "s \<in> set ?kept"
    then show "\<exists>key \<in> set (getSecretKeys v). \<exists>E. Environment s = Some E \<and>
              Name s = (if IsGroup env then key
                        else TrimSuffix key (''-'' @ Environment.Name E))"
      by (rule main)
  qed
next
  show "TrimSuffix (pre @ suffix) suffix = pre" by (rule TrimSuffix_append)
next
  let ?b = "\<lparr>kv = [(''apps/my-app/db-password-dev'', Stored r)], calls = []\<rparr>"
  have k: "kv (Client (connect ?b)) =
      [(''apps/my-app/db-password'' @ ''-'' @ Environment.Name DevEnv, Stored r)]"
    by (simp add: connect_def Name_fixedEnvs)
  have E: "DevEnv \<in> set fixedEnvs" by (simp add: fixedEnvs_def)
  have b1: "BelongsToEnv ((New [])\<lparr>Environment := Some DevEnv\<rparr>) (Some DevEnv)"
    by (simp add: BelongsToEnv_def)
  have b2: "BelongsToEnv ((New [])\<lparr>Environment := Some DevEnv\<rparr>) (Some NonprodEnv)"
    by (simp add: BelongsToEnv_def env_defs)
  show "GetSecrets L (connect ?b) (Some DevEnv) =
     Inr \<lparr>Client = ?b,
          Secrets = [\<lparr>Name = ''apps/my-app/db-password'', Data = Some (entries (kvData r)),
                      Environment = Some DevEnv, Tags = Some (entries (kvCustomMetadata r))\<rparr>]\<rparr>"
    unfolding GetSecrets_single_suffixed [OF k E b1]
    by (simp add: connect_def IsGroup_fixedEnvs)
  show "GetSecrets L (connect ?b) (Some NonprodEnv) =
     Inr \<lparr>Client = ?b,
          Secrets = [\<lparr>Name = ''apps/my-app/db-password-dev'', Data = Some (entries (kvData r)),
                      Environment = Some DevEnv, Tags = Some (entries (kvCustomMetadata r))\<rparr>]\<rparr>"
    unfolding GetSecrets_single_suffixed [OF k E b2]
    by (simp add: connect_def IsGroup_fixedEnvs Name_fixedEnvs)
qed

theorem GetSecrets_trim_on_sync_witness:
  "allReadable (Client (connect \<lparr>kv = [(''db-dev'', Stored \<lparr>kvData = Some fmempty, kvCustomMetadata = Some fmempty\<rparr>)], calls = []\<rparr>)) \<and>
   (\<exists>kept. GetSecrets exampleLib
       (connect \<lparr>kv = [(''db-dev'', Stored \<lparr>kvData = Some fmempty, kvCustomMetadata = Some fmempty\<rparr>)], calls = []\<rparr>)
       (Some DevEnv) =
     Inr ((connect \<lparr>kv = [(''db-dev'', Stored \<lparr>kvData = Some fmempty, kvCustomMetadata = Some fmempty\<rparr>)], calls = []\<rparr>)
          \<lparr>Secrets := Secrets (connect \<lparr>kv = [(''db-dev'', Stored \<lparr>kvData = Some fmempty, kvCustomMetadata = Some fmempty\<rparr>)], calls = []\<rparr>) @ kept\<rparr>))"
proof -
  let ?v = "connect \<lparr>kv = [(''db-dev'', Stored \<lparr>kvData = Some fmempty, kvCustomMetadata = Some fmempty\<rparr>)], calls = []\<rparr>"
  have a: "allReadable (Client ?v)" by (simp add: allReadable_def connect_def)
  with GetSecrets_trim_on_sync [of ?v exampleLib DevEnv] show ?thesis by blast
qed



section \<open>Filtering by tags\<close>

lemma len_pos_iff: "len tags > 0 \<longleftrightarrow> entries tags \<noteq> fmempty"
proof -
  have "fcard (fmdom (entries tags)) = 0 \<longleftrightarrow> fmdom (entries tags) = {||}"
    by (simp add: fcard_0_eq)
  also have "\<dots> \<longleftrightarrow> entries tags = fmempty"
  proof
    assume "fmdom (entries tags) = {||}"
    then have "fmlookup (entries tags) key = None" for key
      by (metis fmdom_notD fempty_iff)
    then show "entries tags = fmempty" by (intro fmap_ext) simp
  next
    assume "entries tags = fmempty"
    then show "fmdom (entries tags) = {||}" by simp
  qed
  finally have "len tags = 0 \<longleftrightarrow> entries tags = fmempty" by (simp add: len_def)
  then show ?thesis by (cases "len tags") simp_all
qed

lemma interface_eq_GString: "interface_eq x (GString t) = Inr (x = GString t)"
  by (cases x) simp_all

lemma index_eq_GString:
  "index m key = GString t \<longleftrightarrow> fmlookup (entries m) key = Some (GString t)"
  by (simp add: index_def split: option.split)

lemma ContainsTagWithValue_GString:
  "ContainsTagWithValue s key (GString t) =
     Inr (fmlookup (entries (Tags s)) key = Some (GString t))"
  by (simp add: ContainsTagWithValue_def interface_eq_GString index_eq_GString)

lemma stringValuedD:
  "stringValued tags \<Longrightarrow> fmlookup (entries tags) key = Some val \<Longrightarrow> \<exists>t. val = GString t"
  by (cases val) (auto simp: stringValued_def dest: fmpredD)

lemma containsTag_stringValued:
  assumes "stringValued tags"
  shows "FilterByTags_containsTag secret tags = Inr (entries tags \<subseteq>\<^sub>f entries (Tags secret))"
proof -
  have a: "fmpred (\<lambda>key val. \<not> isl (ContainsTagWithValue secret key val)) (entries tags)"
  proof (rule fmpredI)
    fix key val assume "fmlookup (entries tags) key = Some val"
    with assms obtain t where "val = GString t" using stringValuedD by blast
    then show "\<not> isl (ContainsTagWithValue secret key val)"
      by (simp add: ContainsTagWithValue_GString)
  qed
  have b: "fmpred (\<lambda>key val. ContainsTagWithValue secret key val = Inr True) (entries tags)
       \<longleftrightarrow> entries tags \<subseteq>\<^sub>f entries (Tags secret)"
  proof
    assume p: "fmpred (\<lambda>key val. ContainsTagWithValue secret key val = Inr True) (entries tags)"
    show "entries tags \<subseteq>\<^sub>f entries (Tags secret)"
    proof (rule fmsubset_alt_def [THEN iffD2], rule fmpredI)
      fix key val assume l: "fmlookup (entries tags) key = Some val"
      with assms obtain t where t: "val = GString t" using stringValuedD by blast
      from p l have "ContainsTagWithValue secret key val = Inr True" by (rule fmpredD)
      with t show "fmlookup (entries (Tags secret)) key = Some val"
        by (simp add: ContainsTagWithValue_GString)
    qed
  next
    assume sub: "entries tags \<subseteq>\<^sub>f entries (Tags secret)"
    show "fmpred (\<lambda>key val. ContainsTagWithValue secret key val = Inr True) (entries tags)"
    proof (rule fmpredI)
      fix key val assume l: "fmlookup (entries tags) key = Some val"
      with assms obtain t where t: "val = GString t" using stringValuedD by blast
      from sub l have "fmlookup (entries (Tags secret)) key = Some val"
        by (auto simp: fmsubset_alt_def dest: fmpredD)
      with t show "ContainsTagWithValue secret key val = Inr True"
        by (simp add: ContainsTagWithValue_GString)
    qed
  qed
  from a b show ?thesis by (simp add: FilterByTags_containsTag_def)
qed

lemma FilterByTags_loop_stringValued:
  assumes "stringValued tags"
  shows "FilterByTags_loop secrets tags filteredSecrets =
           Inr (filteredSecrets @ filter (\<lambda>s. entries tags \<subseteq>\<^sub>f entries (Tags s)) secrets)"
  by (induction secrets arbitrary: filteredSecrets)
     (simp_all add: containsTag_stringValued [OF assms])

lemma FilterByTags_stringValued:
  assumes "entries tags \<noteq> fmempty" and "stringValued tags"
  shows "FilterByTags secrets tags =
           Inr (True, filter (\<lambda>s. entries tags \<subseteq>\<^sub>f entries (Tags s)) secrets)"
  using assms(1) by (simp add: FilterByTags_def len_pos_iff FilterByTags_loop_stringValued [OF assms(2)])

lemma FilterByTags_empty:
  "entries tags = fmempty \<Longrightarrow> FilterByTags secrets tags = Inr (False, secrets)"
proof -
  assume "entries tags = fmempty"
  then have "\<not> len tags > 0" unfolding len_pos_iff by simp
  then show ?thesis by (simp add: FilterByTags_def)
qed

text \<open>
  C7. With no required tag (the map nil or empty), \<^verbatim>\<open>FilterByTags\<close> returns
  false and the secrets it was given. With required tags, all of them
  strings, it returns true and, in their order, the secrets whose tags hold
  every required key with the required value: the same string, a tag of
  another type never matching.
\<close>

theorem FilterByTags_spec:
  "FilterByTags secrets (Some fmempty) = Inr (False, secrets) \<and>
   FilterByTags secrets None = Inr (False, secrets) \<and>
   (entries tags \<noteq> fmempty \<and> stringValued tags \<longrightarrow>
      FilterByTags secrets tags =
        Inr (True, filter (\<lambda>s. entries tags \<subseteq>\<^sub>f entries (Tags s)) secrets)) \<and>
   (entries tags \<subseteq>\<^sub>f entries (Tags s) \<longleftrightarrow>
      (\<forall>key val. fmlookup (entries tags) key = Some val \<longrightarrow>
         fmlookup (entries (Tags s)) key = Some val))"
proof (intro conjI impI)
  show "FilterByTags secrets (Some fmempty) = Inr (False, secrets)"
    by (rule FilterByTags_empty) (simp add: entries_def)
next
  show "FilterByTags secrets None = Inr (False, secrets)"
    by (rule FilterByTags_empty) (simp add: entries_def)
next
  assume "entries tags \<noteq> fmempty \<and> stringValued tags"
  then show "FilterByTags secrets tags =
        Inr (True, filter (\<lambda>s. entries tags \<subseteq>\<^sub>f entries (Tags s)) secrets)"
    using FilterByTags_stringValued by blast
next
  show "entries tags \<subseteq>\<^sub>f entries (Tags s) \<longleftrightarrow>
      (\<forall>key val. fmlookup (entries tags) key = Some val \<longrightarrow>
         fmlookup (entries (Tags s)) key = Some val)"
    by (simp add: fmsubset_alt_def fmpred_iff)
qed

lemma fmsubset_single:
  "fmupd key val fmempty \<subseteq>\<^sub>f m \<longleftrightarrow> fmlookup m key = Some val"
  by (auto simp: fmsubset_alt_def fmpred_iff split: if_splits)

theorem FilterByTags_spec_witness:
  "entries (Some (fmupd ''team'' (GString ''payments'') fmempty)) \<noteq> fmempty \<and>
   stringValued (Some (fmupd ''team'' (GString ''payments'') fmempty)) \<and>
   FilterByTags
     [(New ''a'')\<lparr>Tags := Some (fmupd ''team'' (GString ''payments'') fmempty)\<rparr>,
      (New ''b'')\<lparr>Tags := Some (fmupd ''team'' (GString ''search'') fmempty)\<rparr>,
      New ''c'', (New ''d'')\<lparr>Tags := None\<rparr>]
     (Some (fmupd ''team'' (GString ''payments'') fmempty)) =
   Inr (True, [(New ''a'')\<lparr>Tags := Some (fmupd ''team'' (GString ''payments'') fmempty)\<rparr>])"
proof -
  let ?tags = "Some (fmupd ''team'' (GString ''payments'') fmempty) :: gomap"
  have a: "entries ?tags \<noteq> fmempty" by (simp add: entries_def)
  have b: "stringValued ?tags"
    by (simp add: stringValued_def entries_def fmpred_iff split: if_splits)
  let ?secrets = "[(New ''a'')\<lparr>Tags := ?tags\<rparr>,
      (New ''b'')\<lparr>Tags := Some (fmupd ''team'' (GString ''search'') fmempty)\<rparr>, New ''c'',
      (New ''d'')\<lparr>Tags := None\<rparr>]"
  from FilterByTags_spec [of ?secrets ?tags] a b
  have "FilterByTags ?secrets ?tags =
      Inr (True, filter (\<lambda>s. entries ?tags \<subseteq>\<^sub>f entries (Tags s)) ?secrets)"
    by blast
  then have "FilterByTags ?secrets ?tags = Inr (True, [(New ''a'')\<lparr>Tags := ?tags\<rparr>])"
    by (simp add: fmsubset_single entries_def New_def)
  with a b show ?thesis by blast
qed

section \<open>Parsing the tag filter\<close>

lemma Split_one_sep:
  assumes "length (filter (\<lambda>c. c = sep) tag) = 1"
  shows "Split tag sep = [takeWhile (\<lambda>c. c \<noteq> sep) tag, tl (dropWhile (\<lambda>c. c \<noteq> sep) tag)]"
proof -
  let ?k = "takeWhile (\<lambda>c. c \<noteq> sep) tag" and ?r = "dropWhile (\<lambda>c. c \<noteq> sep) tag"
  have t: "tag = ?k @ ?r" by simp
  have k: "sep \<notin> set ?k" by (auto dest: set_takeWhileD)
  then have fk: "filter (\<lambda>c. c = sep) ?k = []" by (auto simp: filter_empty_conv)
  from assms have "filter (\<lambda>c. c = sep) tag \<noteq> []" by auto
  then have "sep \<in> set tag" by (auto simp: filter_empty_conv)
  then have ne: "?r \<noteq> []" by auto
  then have "hd ?r = sep" using hd_dropWhile [of "\<lambda>c. c \<noteq> sep" tag] by simp
  with ne have "?r = sep # tl ?r" by (cases ?r) simp_all
  then obtain v where r: "?r = sep # v" ..
  from assms have "length (filter (\<lambda>c. c = sep) (?k @ ?r)) = 1" by simp
  with fk r have "filter (\<lambda>c. c = sep) v = []" by simp
  then have v: "sep \<notin> set v" by (auto simp: filter_empty_conv)
  have "Split (?k @ sep # v) sep = [?k, v]"
    using k v by (simp add: Split_append Split_no_sep)
  moreover from r have "tag = ?k @ sep # v" using t by simp
  moreover from r have "tl ?r = v" by simp
  ultimately show ?thesis by simp
qed


lemma Split_length_2_iff:
  "length (Split tag sep) = 2 \<longleftrightarrow> length (filter (\<lambda>c. c = sep) tag) = 1"
  by (simp add: length_Split)

lemma ParseFilterTags_loop_panic:
  assumes "\<exists>tag \<in> set pairs. length (filter (\<lambda>c. c = CHR ''='') tag) \<noteq> 1"
  shows "\<exists>tag \<in> set pairs. length (filter (\<lambda>c. c = CHR ''='') tag) \<noteq> 1 \<and>
           ParseFilterTags_loop pairs tags =
             Inl (Panic (''Cannot parse tag filter '' @ [CHR 0x27] @ tag @ [CHR 0x27]))"
  using assms
proof (induction pairs arbitrary: tags)
  case Nil
  then show ?case by simp
next
  case (Cons tag rest)
  show ?case
  proof (cases "length (filter (\<lambda>c. c = CHR ''='') tag) = 1")
    case True
    with Cons.prems have "\<exists>tag \<in> set rest. length (filter (\<lambda>c. c = CHR ''='') tag) \<noteq> 1"
      by auto
    from Cons.IH [OF this] True show ?thesis
      by (simp add: Let_def Split_length_2_iff)
  next
    case False
    then show ?thesis by (simp add: Let_def Split_length_2_iff)
  qed
qed

lemma ParseFilterTags_loop_ok:
  assumes "\<forall>tag \<in> set pairs. length (filter (\<lambda>c. c = CHR ''='') tag) = 1"
  shows "\<exists>result. ParseFilterTags_loop pairs tags = Inr result \<and>
           fmlookup result =
             fmlookup tags ++
             map_of (rev (map (\<lambda>tag. (takeWhile (\<lambda>c. c \<noteq> CHR ''='') tag,
                                        GString (tl (dropWhile (\<lambda>c. c \<noteq> CHR ''='') tag)))) pairs))"
  using assms
proof (induction pairs arbitrary: tags)
  case Nil
  then show ?case by simp
next
  case (Cons tag rest)
  let ?k = "takeWhile (\<lambda>c. c \<noteq> CHR ''='') tag"
  let ?v = "tl (dropWhile (\<lambda>c. c \<noteq> CHR ''='') tag)"
  from Cons.prems have one: "length (filter (\<lambda>c. c = CHR ''='') tag) = 1"
    and rest: "\<forall>tag \<in> set rest. length (filter (\<lambda>c. c = CHR ''='') tag) = 1" by simp_all
  from one have sp: "Split tag CHR ''='' = [?k, ?v]" by (rule Split_one_sep)
  from Cons.IH [OF rest, of "fmupd ?k (GString ?v) tags"] obtain result where
    r: "ParseFilterTags_loop rest (fmupd ?k (GString ?v) tags) = Inr result"
    and l: "fmlookup result = fmlookup (fmupd ?k (GString ?v) tags) ++
             map_of (rev (map (\<lambda>tag. (takeWhile (\<lambda>c. c \<noteq> CHR ''='') tag,
                                        GString (tl (dropWhile (\<lambda>c. c \<noteq> CHR ''='') tag)))) rest))"
    by blast
  from r sp have "ParseFilterTags_loop (tag # rest) tags = Inr result" by (simp add: Let_def)
  moreover have "fmlookup (fmupd ?k (GString ?v) tags) = (fmlookup tags)(?k \<mapsto> GString ?v)"
    by (rule ext) simp
  with l have "fmlookup result = fmlookup tags ++
             map_of (rev (map (\<lambda>tag. (takeWhile (\<lambda>c. c \<noteq> CHR ''='') tag,
                                        GString (tl (dropWhile (\<lambda>c. c \<noteq> CHR ''='') tag)))) (tag # rest)))"
    by (simp add: map_add_def fun_eq_iff split: option.split)
  ultimately show ?case by blast
qed

text \<open>
  C8. The empty string parses to the empty map, which is not nil. A string that is not empty
  is split at the semicolons: when some pair does not hold exactly one equals
  sign, \<^verbatim>\<open>ParseFilterTags\<close> panics, with the message naming such a pair; when
  every pair holds exactly one, it returns the map that sends the text before
  the sign to the string after it, a later pair winning over an earlier pair
  of the same key.
\<close>

theorem ParseFilterTags_spec:
  "ParseFilterTags [] = Inr (Some fmempty) \<and>
   (tagsString \<noteq> [] \<and>
    (\<exists>tag \<in> set (Split tagsString CHR '';''). length (filter (\<lambda>c. c = CHR ''='') tag) \<noteq> 1) \<longrightarrow>
      (\<exists>tag \<in> set (Split tagsString CHR '';'').
         length (filter (\<lambda>c. c = CHR ''='') tag) \<noteq> 1 \<and>
         ParseFilterTags tagsString =
           Inl (Panic (''Cannot parse tag filter '' @ [CHR 0x27] @ tag @ [CHR 0x27])))) \<and>
   (tagsString \<noteq> [] \<and>
    (\<forall>tag \<in> set (Split tagsString CHR '';''). length (filter (\<lambda>c. c = CHR ''='') tag) = 1) \<longrightarrow>
      (\<exists>tags. ParseFilterTags tagsString = Inr (Some tags) \<and>
         fmlookup tags =
           map_of (rev (map (\<lambda>tag. (takeWhile (\<lambda>c. c \<noteq> CHR ''='') tag,
                                      GString (tl (dropWhile (\<lambda>c. c \<noteq> CHR ''='') tag))))
                          (Split tagsString CHR '';'')))))"
proof (intro conjI impI)
  show "ParseFilterTags [] = Inr (Some fmempty)" by (simp add: ParseFilterTags_def)
next
  assume a: "tagsString \<noteq> [] \<and>
    (\<exists>tag \<in> set (Split tagsString CHR '';''). length (filter (\<lambda>c. c = CHR ''='') tag) \<noteq> 1)"
  then have "\<exists>tag \<in> set (Split tagsString CHR '';''). length (filter (\<lambda>c. c = CHR ''='') tag) \<noteq> 1"
    by simp
  from ParseFilterTags_loop_panic [OF this, of fmempty] a
  show "\<exists>tag \<in> set (Split tagsString CHR '';'').
         length (filter (\<lambda>c. c = CHR ''='') tag) \<noteq> 1 \<and>
         ParseFilterTags tagsString =
           Inl (Panic (''Cannot parse tag filter '' @ [CHR 0x27] @ tag @ [CHR 0x27]))"
    by (auto simp: ParseFilterTags_def)
next
  assume a: "tagsString \<noteq> [] \<and>
    (\<forall>tag \<in> set (Split tagsString CHR '';''). length (filter (\<lambda>c. c = CHR ''='') tag) = 1)"
  then have "\<forall>tag \<in> set (Split tagsString CHR '';''). length (filter (\<lambda>c. c = CHR ''='') tag) = 1"
    by simp
  moreover have "fmlookup (fmempty :: (string, gvalue) fmap) = Map.empty" by (rule ext) simp
  ultimately
  show "\<exists>tags. ParseFilterTags tagsString = Inr (Some tags) \<and>
         fmlookup tags =
           map_of (rev (map (\<lambda>tag. (takeWhile (\<lambda>c. c \<noteq> CHR ''='') tag,
                                      GString (tl (dropWhile (\<lambda>c. c \<noteq> CHR ''='') tag))))
                          (Split tagsString CHR '';'')))"
    using ParseFilterTags_loop_ok [of "Split tagsString CHR '';''" fmempty] a
    by (auto simp: ParseFilterTags_def)
qed

theorem ParseFilterTags_spec_witness:
  "''team=payments;env'' \<noteq> [] \<and>
   ''env'' \<in> set (Split ''team=payments;env'' CHR '';'') \<and>
   length (filter (\<lambda>c. c = CHR ''='') ''env'') \<noteq> 1 \<and>
   ParseFilterTags ''team=payments;env'' =
     Inl (Panic (''Cannot parse tag filter '' @ [CHR 0x27] @ ''env'' @ [CHR 0x27])) \<and>
   ''team=payments'' \<noteq> [] \<and>
   length (filter (\<lambda>c. c = CHR ''='') ''team=payments'') = 1 \<and>
   (\<exists>tags. ParseFilterTags ''team=payments'' = Inr (Some tags) \<and>
      fmlookup tags ''team'' = Some (GString ''payments''))"
proof -
  have sp: "Split ''team=payments;env'' CHR '';'' = [''team=payments'', ''env'']" by simp
  have bad: "length (filter (\<lambda>c. c = CHR ''='') ''env'') \<noteq> 1" by simp
  have good: "length (filter (\<lambda>c. c = CHR ''='') ''team=payments'') = 1" by simp
  from ParseFilterTags_spec [of "''team=payments;env''"] sp bad good
  have p: "ParseFilterTags ''team=payments;env'' =
     Inl (Panic (''Cannot parse tag filter '' @ [CHR 0x27] @ ''env'' @ [CHR 0x27]))"
    by auto
  have sp1: "Split ''team=payments'' CHR '';'' = [''team=payments'']" by simp
  from ParseFilterTags_spec [of "''team=payments''"] sp1 good
  have "\<exists>tags. ParseFilterTags ''team=payments'' = Inr (Some tags) \<and>
      fmlookup tags ''team'' = Some (GString ''payments'')"
    by auto
  with p sp bad good show ?thesis by simp
qed

section \<open>Equality of data and tags\<close>

lemma utf8Len_le: "utf8Len s \<le> length s"
  by (cases s) (auto simp: utf8Len_def Let_def)

lemma utf8Len_take:
  assumes "utf8Len s = n" and "0 < n"
  shows "utf8Len (take n s @ t) = n"
proof (cases s)
  case Nil
  with assms show ?thesis by (simp add: utf8Len_def)
next
  case (Cons c cs)
  with assms have n: "n = utf8Need (of_char c)" and l: "n \<le> length s"
    and ok: "utf8Tail (map of_char (take n s))"
    by (auto simp: utf8Len_def Let_def split: if_splits)
  from assms(2) Cons obtain m where m: "n = Suc m" by (cases n) auto
  define u where "u = take n s @ t"
  from Cons m have hd: "u = c # (take m cs @ t)" by (simp add: u_def)
  from l have tk: "take n u = take n s" and lu: "n \<le> length u" by (simp_all add: u_def)
  have "utf8Len u =
      (if n = 0 \<or> length u < n \<or> \<not> utf8Tail (map of_char (take n u)) then 0 else n)"
    unfolding hd utf8Len_def list.case Let_def n ..
  with assms(2) lu ok tk have "utf8Len u = n" by simp
  then show ?thesis by (simp add: u_def)
qed

lemma utf8Len_replacement: "utf8Len (CHR 0xEF # CHR 0xBF # CHR 0xBD # t) = 3"
  by (simp add: utf8Len_def utf8Need_def utf8Tail_def)

lemma toValidUTF8_append:
  assumes "utf8Len s = n" and "0 < n"
  shows "toValidUTF8 (take n s @ t) = take n s @ toValidUTF8 t"
proof -
  from assms utf8Len_le [of s] have l: "n \<le> length s" by simp
  from assms(2) l obtain c cs where c: "take n s @ t = c # cs" by (cases "take n s @ t") auto
  have u: "utf8Len (take n s @ t) = n" using assms by (rule utf8Len_take)
  from l have "take n (take n s @ t) = take n s" "drop n (take n s @ t) = t" by simp_all
  with u assms(2) show ?thesis unfolding c by (simp del: take_append drop_append)
qed

lemma toValidUTF8_idem: "toValidUTF8 (toValidUTF8 s) = toValidUTF8 s"
proof (induction s rule: toValidUTF8.induct)
  case 1
  show ?case by simp
next
  case (2 c cs)
  show ?case
  proof (cases "utf8Len (c # cs) = 0")
    case True
    with 2 have ih: "toValidUTF8 (toValidUTF8 cs) = toValidUTF8 cs" by simp
    have "toValidUTF8 (CHR 0xEF # CHR 0xBF # CHR 0xBD # toValidUTF8 cs) =
        [CHR 0xEF, CHR 0xBF, CHR 0xBD] @ toValidUTF8 (toValidUTF8 cs)"
      using toValidUTF8_append [of "CHR 0xEF # CHR 0xBF # CHR 0xBD # []" 3 "toValidUTF8 cs"]
      by (simp add: utf8Len_replacement)
    with ih True show ?thesis by simp
  next
    case False
    let ?n = "utf8Len (c # cs)"
    from False 2 have ih: "toValidUTF8 (toValidUTF8 (drop ?n (c # cs))) = toValidUTF8 (drop ?n (c # cs))"
      by simp
    from False have "toValidUTF8 (take ?n (c # cs) @ toValidUTF8 (drop ?n (c # cs))) =
        take ?n (c # cs) @ toValidUTF8 (toValidUTF8 (drop ?n (c # cs)))"
      by (intro toValidUTF8_append) simp_all
    with ih False show ?thesis by (simp del: take_Suc_Cons drop_Suc_Cons)
  qed
qed

lemma ParseFloat_finite: "ParseFloat s = Some f \<Longrightarrow> isFinite64 f"
  by (auto simp: ParseFloat_def Let_def split: if_splits)

lemma finite_not_NaN: "isFinite64 f \<Longrightarrow> \<not> isNaN64 f"
  by (simp add: isFinite64_def isNaN64_def)

lemma float64_eq_refl: "isFinite64 f \<Longrightarrow> float64_eq f f"
  by (simp add: float64_eq_def finite_not_NaN)

lemma those_Some_iff: "those xs = Some ys \<longleftrightarrow> xs = map Some ys"
proof (induction xs arbitrary: ys)
  case Nil
  show ?case by auto
next
  case (Cons x xs)
  then show ?case by (cases x; cases ys) (auto split: option.splits)
qed

lemma fold_fmupd_lookup:
  "fmlookup (fold (\<lambda>k acc. fmupd (f k) (g k) acc) ks acc0) =
     fmlookup acc0 ++ map_of (rev (map (\<lambda>k. (f k, g k)) ks))"
proof (induction ks arbitrary: acc0)
  case Nil
  show ?case by simp
next
  case (Cons k ks)
  have "fmlookup (fmupd (f k) (g k) acc0) = (fmlookup acc0)(f k \<mapsto> g k)"
    by (rule ext) simp
  then show ?case
    unfolding fold_simps Cons.IH
    by (simp add: map_add_def fun_eq_iff split: option.split)
qed

lemma jsonObject_Some:
  assumes "jsonObject m = Some r"
  shows "fmpred (\<lambda>key v. v \<noteq> None) m"
    and "fmlookup r =
           map_of (rev (map (\<lambda>key. (toValidUTF8 key, the (the (fmlookup m key))))
                          (sorted_list_of_fset (fmdom m))))"
proof -
  from assms show p: "fmpred (\<lambda>key v. v \<noteq> None) m"
    by (simp add: jsonObject_def split: if_splits)
  have "fmlookup (fmempty :: (string, gvalue) fmap) = Map.empty" by (rule ext) simp
  with assms p show "fmlookup r =
           map_of (rev (map (\<lambda>key. (toValidUTF8 key, the (the (fmlookup m key))))
                          (sorted_list_of_fset (fmdom m))))"
    by (auto simp: jsonObject_def fold_fmupd_lookup)
qed

lemma jsonObject_entry:
  assumes "jsonObject m = Some r" and "fmlookup r key' = Some v"
  shows "\<exists>key. fmlookup m key = Some (Some v) \<and> key' = toValidUTF8 key"
proof -
  from jsonObject_Some(2) [OF assms(1)] assms(2)
  have "map_of (rev (map (\<lambda>key. (toValidUTF8 key, the (the (fmlookup m key))))
                          (sorted_list_of_fset (fmdom m)))) key' = Some v" by simp
  then have "(key', v) \<in> set (map (\<lambda>key. (toValidUTF8 key, the (the (fmlookup m key))))
                          (sorted_list_of_fset (fmdom m)))"
    using map_of_SomeD by fastforce
  then obtain key where k: "key |\<in>| fmdom m" and e: "key' = toValidUTF8 key"
    "v = the (the (fmlookup m key))" by auto
  from k obtain w where w: "fmlookup m key = Some w" by (auto simp: fmlookup_dom_iff)
  with jsonObject_Some(1) [OF assms(1)] have "w \<noteq> None" by (auto dest: fmpredD)
  with w e show ?thesis by auto
qed

lemma jsonObject_valid_keys:
  assumes "\<And>key. key |\<in>| fmdom r \<Longrightarrow> toValidUTF8 key = key"
  shows "jsonObject (fmmap Some r) = Some r"
proof -
  let ?ks = "sorted_list_of_fset (fmdom r)"
  have p: "fmpred (\<lambda>key v. v \<noteq> None) (fmmap Some r)" by (rule fmpredI) auto
  have "map (\<lambda>key. (toValidUTF8 key, the (the (fmlookup (fmmap Some r) key)))) ?ks =
        map (\<lambda>key. (key, the (fmlookup r key))) ?ks"
    using assms by (auto simp: fmlookup_dom_iff)
  then have "fold (\<lambda>key acc. fmupd (toValidUTF8 key) (the (the (fmlookup (fmmap Some r) key))) acc)
              ?ks fmempty = r" (is "?f = r")
  proof -
    assume eq: "map (\<lambda>key. (toValidUTF8 key, the (the (fmlookup (fmmap Some r) key)))) ?ks =
        map (\<lambda>key. (key, the (fmlookup r key))) ?ks"
    have "fmlookup ?f x = fmlookup r x" for x
    proof -
      have "fmlookup (fmempty :: (string, gvalue) fmap) = Map.empty" by (rule ext) simp
      then have "fmlookup ?f x = map_of (rev (map (\<lambda>key. (key, the (fmlookup r key))) ?ks)) x"
        unfolding fold_fmupd_lookup eq by simp
      also have "\<dots> = fmlookup r x"
      proof (cases "fmlookup r x")
        case None
        then have "x \<notin> set ?ks" by (auto simp: fmlookup_dom_iff)
        then have "map_of (rev (map (\<lambda>key. (key, the (fmlookup r key))) ?ks)) x = None"
          by (auto simp: map_of_eq_None_iff image_iff)
        with None show ?thesis by simp
      next
        case (Some v)
        then have "x \<in> set ?ks" by (auto simp: fmlookup_dom_iff)
        then have "(x, v) \<in> set (rev (map (\<lambda>key. (key, the (fmlookup r key))) ?ks))"
          using Some by (auto simp: image_iff)
        moreover have "\<And>a b c. (a, b) \<in> set (rev (map (\<lambda>key. (key, the (fmlookup r key))) ?ks))
            \<Longrightarrow> (a, c) \<in> set (rev (map (\<lambda>key. (key, the (fmlookup r key))) ?ks)) \<Longrightarrow> b = c"
          by auto
        ultimately have "map_of (rev (map (\<lambda>key. (key, the (fmlookup r key))) ?ks)) x = Some v"
        proof -
          assume mem: "(x, v) \<in> set (rev (map (\<lambda>key. (key, the (fmlookup r key))) ?ks))"
            and uniq: "\<And>a b c. (a, b) \<in> set (rev (map (\<lambda>key. (key, the (fmlookup r key))) ?ks))
            \<Longrightarrow> (a, c) \<in> set (rev (map (\<lambda>key. (key, the (fmlookup r key))) ?ks)) \<Longrightarrow> b = c"
          from weak_map_of_SomeI [OF mem] obtain w where
            w: "map_of (rev (map (\<lambda>key. (key, the (fmlookup r key))) ?ks)) x = Some w" ..
          from map_of_SomeD [OF w] mem have "w = v" by (rule uniq)
          with w show ?thesis by simp
        qed
        with Some show ?thesis by simp
      qed
      finally show ?thesis .
    qed
    then show ?thesis by (rule fmap_ext)
  qed
  with p show ?thesis by (simp add: jsonObject_def)
qed


lemma jsonMarshalUnmarshal_fixed:
  "jsonMarshalUnmarshal x = Some y \<Longrightarrow> jsonMarshalUnmarshal y = Some y \<and> reflect_DeepEqual y y"
proof (induction x arbitrary: y)
  case GNil
  then show ?case by auto
next
  case (GBool b)
  then show ?case by auto
next
  case (GString s)
  then show ?case by (auto simp: toValidUTF8_idem)
next
  case (GNumber s)
  let ?n = "if s = [] then ''0'' else s"
  from GNumber have v: "isValidNumber ?n"
    and y: "y = (case ParseFloat ?n of Some f \<Rightarrow> GFloat64 f | None \<Rightarrow> GNil)"
    by (auto simp: Let_def split: if_splits)
  show ?case
  proof (cases "ParseFloat ?n")
    case None
    with y show ?thesis by simp
  next
    case (Some f)
    then have "isFinite64 f" by (rule ParseFloat_finite)
    with y Some show ?thesis by (simp add: float64_eq_refl)
  qed
next
  case (GFloat64 f)
  then show ?case by (auto simp: float64_eq_refl split: if_splits)
next
  case (GSlice xs)
  from GSlice.prems obtain ys where t: "those (map jsonMarshalUnmarshal xs) = Some ys" and y: "y = GSlice ys"
    by auto
  from t have m: "map jsonMarshalUnmarshal xs = map Some ys" by (simp add: those_Some_iff)
  have fixed: "jsonMarshalUnmarshal v = Some v \<and> reflect_DeepEqual v v" if "v \<in> set ys" for v
  proof -
    from that obtain i where i: "i < length ys" "ys ! i = v" by (auto simp: in_set_conv_nth)
    from m have "length (map jsonMarshalUnmarshal xs) = length (map Some ys)" by simp
    then have l: "length xs = length ys" by simp
    from m have "map jsonMarshalUnmarshal xs ! i = map Some ys ! i" by simp
    with i l have "jsonMarshalUnmarshal (xs ! i) = Some v" by simp
    moreover from i l have "xs ! i \<in> set xs" by simp
    ultimately show ?thesis by (rule GSlice.IH [rotated])
  qed
  then have "map jsonMarshalUnmarshal ys = map Some ys" by simp
  then have "those (map jsonMarshalUnmarshal ys) = Some ys" by (simp add: those_Some_iff)
  moreover from fixed have "list_all2 reflect_DeepEqual ys ys" by (simp add: list_all2_same)
  ultimately show ?case using y by simp
next
  case GNilSlice
  then show ?case by auto
next
  case (GMap m)
  from GMap.prems obtain r where o: "jsonObject (fmmap jsonMarshalUnmarshal m) = Some r" and y: "y = GMap r"
    by auto
  have fixed: "jsonMarshalUnmarshal v = Some v \<and> reflect_DeepEqual v v" and valid: "toValidUTF8 key' = key'"
    if "fmlookup r key' = Some v" for key' v
  proof -
    from jsonObject_entry [OF o that] obtain key where
      k: "fmlookup (fmmap jsonMarshalUnmarshal m) key = Some (Some v)" and e: "key' = toValidUTF8 key" by blast
    from k obtain x where x: "fmlookup m key = Some x" "jsonMarshalUnmarshal x = Some v" by auto
    from x(1) have "x \<in> fmran' m" by (auto simp: fmlookup_ran'_iff)
    from GMap.IH [OF this x(2)] show "jsonMarshalUnmarshal v = Some v \<and> reflect_DeepEqual v v" .
    from e show "toValidUTF8 key' = key'" by (simp add: toValidUTF8_idem)
  qed
  have "fmmap jsonMarshalUnmarshal r = fmmap Some r"
  proof (rule fmap_ext)
    fix key
    show "fmlookup (fmmap jsonMarshalUnmarshal r) key = fmlookup (fmmap Some r) key"
      using fixed [of key] by (cases "fmlookup r key") simp_all
  qed
  moreover have "jsonObject (fmmap Some r) = Some r"
  proof (rule jsonObject_valid_keys)
    fix key assume "key |\<in>| fmdom r"
    then obtain v where "fmlookup r key = Some v" by (auto simp: fmlookup_dom_iff)
    then show "toValidUTF8 key = key" by (rule valid)
  qed
  moreover have "fmrel reflect_DeepEqual r r"
  proof (rule fmrelI)
    fix key
    show "rel_option reflect_DeepEqual (fmlookup r key) (fmlookup r key)"
      using fixed [of key] by (cases "fmlookup r key") simp_all
  qed
  ultimately show ?case using y by simp
next
  case GNilMap
  then show ?case by auto
qed

lemma json_round_trip_idem: "json_round_trip (json_round_trip x) = json_round_trip x"
proof (cases "jsonMarshalUnmarshal x")
  case None
  then show ?thesis by (simp add: json_round_trip_def)
next
  case (Some y)
  with jsonMarshalUnmarshal_fixed [OF Some] show ?thesis by (simp add: json_round_trip_def)
qed

lemma reflect_DeepEqual_round_trip_refl:
  "reflect_DeepEqual (json_round_trip x) (json_round_trip x)"
proof (cases "jsonMarshalUnmarshal x")
  case None
  then show ?thesis by (simp add: json_round_trip_def)
next
  case (Some y)
  with jsonMarshalUnmarshal_fixed [OF Some] show ?thesis by (simp add: json_round_trip_def)
qed

lemma DeepEqual_stdlib:
  "DeepEqual (stdlib fmt) m1 m2 \<longleftrightarrow>
     reflect_DeepEqual (asInterface m1) (asInterface m2) \<or>
     reflect_DeepEqual (json_round_trip (asInterface m1)) (json_round_trip (asInterface m2))"
  by (simp add: DeepEqual_def stdlib_def Let_def)

lemma DeepEqual_stdlib_refl: "DeepEqual (stdlib fmt) m m"
  by (simp add: DeepEqual_stdlib reflect_DeepEqual_round_trip_refl)

lemma DeepEqual_stdlib_decoded:
  assumes "jsonMarshalUnmarshal (GMap d) = Some (GMap d')"
  shows "DeepEqual (stdlib fmt) (Some d) (Some d')" and "DeepEqual (stdlib fmt) (Some d') (Some d)"
proof -
  from jsonMarshalUnmarshal_fixed [OF assms]
  have f: "jsonMarshalUnmarshal (GMap d') = Some (GMap d')"
    and r: "reflect_DeepEqual (GMap d') (GMap d')" by simp_all
  from assms have 1: "json_round_trip (GMap d) = GMap d'" by (simp add: json_round_trip_def)
  from f have 2: "json_round_trip (GMap d') = GMap d'" by (simp add: json_round_trip_def)
  from r show "DeepEqual (stdlib fmt) (Some d) (Some d')"
    unfolding DeepEqual_stdlib by (simp add: asInterface_def 1 2)
  from r show "DeepEqual (stdlib fmt) (Some d') (Some d)"
    unfolding DeepEqual_stdlib by (simp add: asInterface_def 1 2)
qed

lemma DeepEqual_stdlib_nil_empty: "\<not> DeepEqual (stdlib fmt) None (Some fmempty)"
proof -
  have "jsonMarshalUnmarshal (GMap fmempty) = Some (GMap fmempty)" by code_simp
  then have "json_round_trip (GMap fmempty) = GMap fmempty" by (simp add: json_round_trip_def)
  then show ?thesis
    unfolding DeepEqual_stdlib by (simp add: asInterface_def json_round_trip_def)
qed

lemma DeepEqual_stdlib_numbers:
  "\<not> DeepEqual (stdlib fmt) (Some (fmupd ''x'' (GNumber ''2'') fmempty))
       (Some (fmupd ''x'' (GNumber ''3'') fmempty))"
proof -
  have "\<not> (reflect_DeepEqual (asInterface (Some (fmupd ''x'' (GNumber ''2'') fmempty)))
              (asInterface (Some (fmupd ''x'' (GNumber ''3'') fmempty))) \<or>
            reflect_DeepEqual
              (json_round_trip (asInterface (Some (fmupd ''x'' (GNumber ''2'') fmempty))))
              (json_round_trip (asInterface (Some (fmupd ''x'' (GNumber ''3'') fmempty)))))"
    by code_simp
  then show ?thesis unfolding DeepEqual_stdlib .
qed

text \<open>
  C9. With \<^verbatim>\<open>reflect.DeepEqual\<close> and the JSON round trip as modelled, \<^verbatim>\<open>DeepEqual\<close>
  holds exactly when the two maps are deeply equal or their round trips are.
  So two secrets whose data have deeply equal round trips are equal for
  \<^verbatim>\<open>EqualData\<close>, whatever the types of the values, and likewise for the tags
  and \<^verbatim>\<open>EqualTags\<close>. In particular a secret is data-equal, in both orders, to
  the secret that carries what its data decode to after marshalling, and the
  same for the tags; and every secret is data-equal and tag-equal to itself.
  The comparison is not trivial: nil data or tags differ from empty ones, and
  the number 2 differs from the number 3.
\<close>

theorem DeepEqual_round_trip:
  "(DeepEqual (stdlib fmt) m1 m2 \<longleftrightarrow>
      reflect_DeepEqual (asInterface m1) (asInterface m2) \<or>
      reflect_DeepEqual (json_round_trip (asInterface m1)) (json_round_trip (asInterface m2))) \<and>
   (reflect_DeepEqual (json_round_trip (asInterface (Data s)))
      (json_round_trip (asInterface (Data o'))) \<longrightarrow> EqualData (stdlib fmt) s o') \<and>
   (reflect_DeepEqual (json_round_trip (asInterface (Tags s)))
      (json_round_trip (asInterface (Tags o'))) \<longrightarrow> EqualTags (stdlib fmt) s o') \<and>
   (Data s = Some d \<and> Data o' = Some d' \<and> jsonMarshalUnmarshal (GMap d) = Some (GMap d') \<longrightarrow>
      EqualData (stdlib fmt) s o' \<and> EqualData (stdlib fmt) o' s) \<and>
   (Tags s = Some d \<and> Tags o' = Some d' \<and> jsonMarshalUnmarshal (GMap d) = Some (GMap d') \<longrightarrow>
      EqualTags (stdlib fmt) s o' \<and> EqualTags (stdlib fmt) o' s) \<and>
   EqualData (stdlib fmt) s s \<and> EqualTags (stdlib fmt) s s \<and>
   \<not> DeepEqual (stdlib fmt) None (Some fmempty) \<and>
   \<not> EqualData (stdlib fmt) (s\<lparr>Data := None\<rparr>) (s\<lparr>Data := Some fmempty\<rparr>) \<and>
   \<not> EqualTags (stdlib fmt) (s\<lparr>Tags := None\<rparr>) (s\<lparr>Tags := Some fmempty\<rparr>) \<and>
   \<not> EqualData (stdlib fmt) (s\<lparr>Data := Some (fmupd ''x'' (GNumber ''2'') fmempty)\<rparr>)
       (s\<lparr>Data := Some (fmupd ''x'' (GNumber ''3'') fmempty)\<rparr>)"
proof (intro conjI impI)
  show "DeepEqual (stdlib fmt) m1 m2 \<longleftrightarrow>
      reflect_DeepEqual (asInterface m1) (asInterface m2) \<or>
      reflect_DeepEqual (json_round_trip (asInterface m1)) (json_round_trip (asInterface m2))"
    by (rule DeepEqual_stdlib)
next
  assume "reflect_DeepEqual (json_round_trip (asInterface (Data s)))
      (json_round_trip (asInterface (Data o')))"
  then show "EqualData (stdlib fmt) s o'" by (simp add: EqualData_def DeepEqual_stdlib)
next
  assume "reflect_DeepEqual (json_round_trip (asInterface (Tags s)))
      (json_round_trip (asInterface (Tags o')))"
  then show "EqualTags (stdlib fmt) s o'" by (simp add: EqualTags_def DeepEqual_stdlib)
next
  assume a: "Data s = Some d \<and> Data o' = Some d' \<and>
    jsonMarshalUnmarshal (GMap d) = Some (GMap d')"
  then have j: "jsonMarshalUnmarshal (GMap d) = Some (GMap d')" by simp
  from a DeepEqual_stdlib_decoded(1) [OF j] show "EqualData (stdlib fmt) s o'"
    by (simp add: EqualData_def)
  from a DeepEqual_stdlib_decoded(2) [OF j] show "EqualData (stdlib fmt) o' s"
    by (simp add: EqualData_def)
next
  assume a: "Tags s = Some d \<and> Tags o' = Some d' \<and>
    jsonMarshalUnmarshal (GMap d) = Some (GMap d')"
  then have j: "jsonMarshalUnmarshal (GMap d) = Some (GMap d')" by simp
  from a DeepEqual_stdlib_decoded(1) [OF j] show "EqualTags (stdlib fmt) s o'"
    by (simp add: EqualTags_def)
  from a DeepEqual_stdlib_decoded(2) [OF j] show "EqualTags (stdlib fmt) o' s"
    by (simp add: EqualTags_def)
next
  show "EqualData (stdlib fmt) s s" by (simp add: EqualData_def DeepEqual_stdlib_refl)
next
  show "EqualTags (stdlib fmt) s s" by (simp add: EqualTags_def DeepEqual_stdlib_refl)
next
  show "\<not> DeepEqual (stdlib fmt) None (Some fmempty)" by (rule DeepEqual_stdlib_nil_empty)
next
  show "\<not> EqualData (stdlib fmt) (s\<lparr>Data := None\<rparr>) (s\<lparr>Data := Some fmempty\<rparr>)"
    by (simp add: EqualData_def DeepEqual_stdlib_nil_empty)
next
  show "\<not> EqualTags (stdlib fmt) (s\<lparr>Tags := None\<rparr>) (s\<lparr>Tags := Some fmempty\<rparr>)"
    by (simp add: EqualTags_def DeepEqual_stdlib_nil_empty)
next
  show "\<not> EqualData (stdlib fmt) (s\<lparr>Data := Some (fmupd ''x'' (GNumber ''2'') fmempty)\<rparr>)
       (s\<lparr>Data := Some (fmupd ''x'' (GNumber ''3'') fmempty)\<rparr>)"
    using DeepEqual_stdlib_numbers [of fmt] by (simp add: EqualData_def)
qed

theorem DeepEqual_round_trip_witness:
  "Data ((New ''db'')\<lparr>Data := Some (fmupd ''x'' (GNumber ''2'') fmempty)\<rparr>) =
     Some (fmupd ''x'' (GNumber ''2'') fmempty) \<and>
   Data ((New ''db'')\<lparr>Data := Some (fmupd ''x'' (GFloat64 0x4000000000000000) fmempty)\<rparr>) =
     Some (fmupd ''x'' (GFloat64 0x4000000000000000) fmempty) \<and>
   jsonMarshalUnmarshal (GMap (fmupd ''x'' (GNumber ''2'') fmempty)) =
     Some (GMap (fmupd ''x'' (GFloat64 0x4000000000000000) fmempty)) \<and>
   \<not> reflect_DeepEqual (GMap (fmupd ''x'' (GNumber ''2'') fmempty))
       (GMap (fmupd ''x'' (GFloat64 0x4000000000000000) fmempty)) \<and>
   EqualData (stdlib (\<lambda>x. []))
     ((New ''db'')\<lparr>Data := Some (fmupd ''x'' (GNumber ''2'') fmempty)\<rparr>)
     ((New ''db'')\<lparr>Data := Some (fmupd ''x'' (GFloat64 0x4000000000000000) fmempty)\<rparr>) \<and>
   EqualData (stdlib (\<lambda>x. []))
     ((New ''db'')\<lparr>Data := Some (fmupd ''x'' (GFloat64 0x4000000000000000) fmempty)\<rparr>)
     ((New ''db'')\<lparr>Data := Some (fmupd ''x'' (GNumber ''2'') fmempty)\<rparr>)"
proof -
  let ?d = "fmupd ''x'' (GNumber ''2'') fmempty :: (string, gvalue) fmap"
  let ?d' = "fmupd ''x'' (GFloat64 0x4000000000000000) fmempty :: (string, gvalue) fmap"
  let ?s = "(New ''db'')\<lparr>Data := Some ?d\<rparr>" and ?o = "(New ''db'')\<lparr>Data := Some ?d'\<rparr>"
  have a: "Data ?s = Some ?d" and b: "Data ?o = Some ?d'" by simp_all
  have c: "jsonMarshalUnmarshal (GMap ?d) = Some (GMap ?d')" by code_simp
  have n: "\<not> reflect_DeepEqual (GMap ?d) (GMap ?d')" by code_simp
  from DeepEqual_round_trip [of "\<lambda>x. []" _ _ ?s ?o ?d ?d'] a b c
  have "EqualData (stdlib (\<lambda>x. [])) ?s ?o \<and> EqualData (stdlib (\<lambda>x. [])) ?o ?s" by blast
  with a b c n show ?thesis by blast
qed

section \<open>A read error during the fetch\<close>

lemma getSecret_Inl: "getSecret v key = Inl e \<Longrightarrow> e = nilDereference"
  by (auto simp: getSecret_def Let_def New_def AddData_def AddTags_def
      split: prod.splits option.splits)

lemma GetSecrets_loop_panic:
  "\<exists>key \<in> set keys. isl (getSecret v key) \<Longrightarrow>
     GetSecrets_loop L v env keys secrets = Inl nilDereference"
proof (induction keys arbitrary: secrets)
  case Nil
  then show ?case by simp
next
  case (Cons key keys)
  show ?case
  proof (cases "getSecret v key")
    case (Inl e)
    then have "e = nilDereference" by (rule getSecret_Inl)
    with Inl show ?thesis by simp
  next
    case (Inr s0)
    with Cons.prems have "\<exists>key \<in> set keys. isl (getSecret v key)" by auto
    then have "\<And>secrets. GetSecrets_loop L v env keys secrets = Inl nilDereference"
      by (rule Cons.IH)
    with Inr show ?thesis by (simp add: Let_def)
  qed
qed

lemma getSecret_Unreadable:
  "map_of (kv (Client v)) key = Some (Unreadable err) \<Longrightarrow> getSecret v key = Inl nilDereference"
  by (simp add: getSecret_def Let_def New_def KVv2_Get_def)

text \<open>
  C6. A path the server lists but answers the read of with an error: the
  run of \<^verbatim>\<open>GetSecrets\<close> ends in the nil dereference of \<^verbatim>\<open>getSecret\<close>. The secret
  is not skipped, and the readable secrets before and after it are not
  returned.
\<close>

theorem GetSecrets_read_error_panics:
  "GetSecrets L
     (connect \<lparr>kv = [(''api-dev'', Stored \<lparr>kvData = Some fmempty, kvCustomMetadata = Some fmempty\<rparr>),
                     (''db-dev'', Unreadable ''permission denied''),
                     (''web-dev'', Stored \<lparr>kvData = Some fmempty, kvCustomMetadata = Some fmempty\<rparr>)],
              calls = []\<rparr>)
     (Some DevEnv) = Inl nilDereference"
proof -
  let ?v = "connect \<lparr>kv = [(''api-dev'', Stored \<lparr>kvData = Some fmempty, kvCustomMetadata = Some fmempty\<rparr>),
                     (''db-dev'', Unreadable ''permission denied''),
                     (''web-dev'', Stored \<lparr>kvData = Some fmempty, kvCustomMetadata = Some fmempty\<rparr>)],
              calls = []\<rparr>"
  have "map_of (kv (Client ?v)) ''db-dev'' = Some (Unreadable ''permission denied'')"
    by (simp add: connect_def)
  then have "getSecret ?v ''db-dev'' = Inl nilDereference" by (rule getSecret_Unreadable)
  moreover have "''db-dev'' \<in> set (getSecretKeys ?v)" by (simp add: getSecretKeys_def connect_def)
  ultimately have "\<exists>key \<in> set (getSecretKeys ?v). isl (getSecret ?v key)" by force
  then have "GetSecrets_loop L ?v DevEnv (getSecretKeys ?v) [] = Inl nilDereference"
    by (rule GetSecrets_loop_panic)
  then show ?thesis by (simp add: GetSecrets_def)
qed

section \<open>Reconciliation\<close>

lemma GetSecrets_nil_single:
  "kv (Client v) = [(key, Stored r)] \<Longrightarrow>
   GetSecrets L v None =
     Inr (v\<lparr>Secrets := Secrets v @ List.map_filter (keep L GlobalEnv)
            [\<lparr>Name = key, Data = Some (entries (kvData r)), Environment = None, Tags = Some (entries (kvCustomMetadata r))\<rparr>]\<rparr>)"
  using GetSecrets_single [of v key r L GlobalEnv] by (simp add: GetSecrets_def)

lemma keep_db_password:
  "keep L env \<lparr>Name = ''db-password'', Data = d, Environment = None, Tags = Some fmempty\<rparr> = None"
proof -
  let ?s = "\<lparr>Name = ''db-password'', Data = d, Environment = None, Tags = Some fmempty\<rparr>"
  have "GetEnvFromName ?s = None" by (simp add: GetEnvFromName_unfold GetEnvFromString_def Name_fixedEnvs)
  moreover have "GetEnvFromTags L ?s = None"
    by (simp add: GetEnvFromTags_def GetTagValue_unfold index_def entries_def GetEnvFromString_Nil)
  ultimately have "GetEnv L ?s = None" by (simp add: GetEnv_unfold)
  then show ?thesis by (simp add: keep_def SetEnv_def BelongsToEnv_def)
qed

text \<open>
  C1. A destination that stores \<^verbatim>\<open>db-password\<close>, a name with no environment
  suffix, and no \<^verbatim>\<open>Environment\<close> tag: \<^verbatim>\<open>GetSecrets(nil)\<close> returns no current
  secret, and \<^verbatim>\<open>UpdateSecrets\<close> with nothing desired makes no call to the
  server, so the secret stays.
\<close>

theorem UpdateSecrets_keeps_removed_secret:
  "GetSecrets L
     (connect \<lparr>kv = [(''db-password'',
                      Stored \<lparr>kvData = Some (fmupd ''password'' (GString ''old'') fmempty),
                              kvCustomMetadata = Some fmempty\<rparr>)],
              calls = []\<rparr>) None =
   Inr \<lparr>Client = \<lparr>kv = [(''db-password'',
                      Stored \<lparr>kvData = Some (fmupd ''password'' (GString ''old'') fmempty),
                              kvCustomMetadata = Some fmempty\<rparr>)],
              calls = []\<rparr>, Secrets = []\<rparr> \<and>
   UpdateSecrets L
     (connect \<lparr>kv = [(''db-password'',
                      Stored \<lparr>kvData = Some (fmupd ''password'' (GString ''old'') fmempty),
                              kvCustomMetadata = Some fmempty\<rparr>)],
              calls = []\<rparr>) [] =
   Inr \<lparr>Client = \<lparr>kv = [(''db-password'',
                      Stored \<lparr>kvData = Some (fmupd ''password'' (GString ''old'') fmempty),
                              kvCustomMetadata = Some fmempty\<rparr>)],
              calls = []\<rparr>, Secrets = []\<rparr>"
proof -
  let ?b = "\<lparr>kv = [(''db-password'',
                      Stored \<lparr>kvData = Some (fmupd ''password'' (GString ''old'') fmempty),
                              kvCustomMetadata = Some fmempty\<rparr>)],
              calls = []\<rparr>"
  have k: "kv (Client (connect ?b)) = [(''db-password'',
                      Stored \<lparr>kvData = Some (fmupd ''password'' (GString ''old'') fmempty),
                              kvCustomMetadata = Some fmempty\<rparr>)]"
    by (simp add: connect_def)
  have g: "GetSecrets L (connect ?b) None = Inr \<lparr>Client = ?b, Secrets = []\<rparr>"
    unfolding GetSecrets_nil_single [OF k]
    by (simp add: keep_db_password List.map_filter_simps connect_def)
  then have "UpdateSecrets L (connect ?b) [] = Inr \<lparr>Client = ?b, Secrets = []\<rparr>"
    by (simp add: UpdateSecrets_def CleanRemovedSecrets_def)
  with g show ?thesis by simp
qed

text \<open>
  C2. A source that stores \<^verbatim>\<open>db-password-dev\<close>, synchronised for the target
  dev: the desired secret is \<^verbatim>\<open>db-password\<close>. The first run, on an empty
  destination, writes its data and its metadata. The second run, on the
  destination the first run left and with the same desired secret, makes the
  same two writes again.
\<close>

theorem UpdateSecrets_second_run_writes_again:
  "GetSecrets L
     (connect \<lparr>kv = [(''db-password-dev'',
                      Stored \<lparr>kvData = Some (fmupd ''password'' (GString ''s3cret'') fmempty),
                              kvCustomMetadata = Some fmempty\<rparr>)],
              calls = []\<rparr>) (Some DevEnv) =
   Inr \<lparr>Client = \<lparr>kv = [(''db-password-dev'',
                      Stored \<lparr>kvData = Some (fmupd ''password'' (GString ''s3cret'') fmempty),
                              kvCustomMetadata = Some fmempty\<rparr>)],
              calls = []\<rparr>,
        Secrets = [\<lparr>Name = ''db-password'',
                    Data = Some (fmupd ''password'' (GString ''s3cret'') fmempty),
                    Environment = Some DevEnv, Tags = Some fmempty\<rparr>]\<rparr> \<and>
   UpdateSecrets L (connect \<lparr>kv = [], calls = []\<rparr>)
     [\<lparr>Name = ''db-password'', Data = Some (fmupd ''password'' (GString ''s3cret'') fmempty),
       Environment = Some DevEnv, Tags = Some fmempty\<rparr>] =
   Inr \<lparr>Client = \<lparr>kv = [(''db-password'',
                      Stored \<lparr>kvData = Some (fmupd ''password'' (GString ''s3cret'') fmempty),
                              kvCustomMetadata = Some fmempty\<rparr>)],
                  calls = [Put ''db-password'' (Some (fmupd ''password'' (GString ''s3cret'') fmempty)),
                           PutMetadata ''db-password'' (Some fmempty)]\<rparr>,
        Secrets = []\<rparr> \<and>
   UpdateSecrets L
     (connect \<lparr>kv = [(''db-password'',
                      Stored \<lparr>kvData = Some (fmupd ''password'' (GString ''s3cret'') fmempty),
                              kvCustomMetadata = Some fmempty\<rparr>)],
              calls = []\<rparr>)
     [\<lparr>Name = ''db-password'', Data = Some (fmupd ''password'' (GString ''s3cret'') fmempty),
       Environment = Some DevEnv, Tags = Some fmempty\<rparr>] =
   Inr \<lparr>Client = \<lparr>kv = [(''db-password'',
                      Stored \<lparr>kvData = Some (fmupd ''password'' (GString ''s3cret'') fmempty),
                              kvCustomMetadata = Some fmempty\<rparr>)],
                  calls = [Put ''db-password'' (Some (fmupd ''password'' (GString ''s3cret'') fmempty)),
                           PutMetadata ''db-password'' (Some fmempty)]\<rparr>,
        Secrets = []\<rparr>"
proof (intro conjI)
  let ?d = "Some (fmupd ''password'' (GString ''s3cret'') fmempty) :: gomap"
  let ?r = "\<lparr>kvData = ?d, kvCustomMetadata = Some fmempty\<rparr>"
  let ?src = "\<lparr>kv = [(''db-password-dev'', Stored ?r)], calls = []\<rparr>"
  let ?new = "\<lparr>Name = ''db-password'', Data = ?d, Environment = Some DevEnv, Tags = Some fmempty\<rparr>"
  have k: "kv (Client (connect ?src)) = [(''db-password'' @ ''-'' @ Environment.Name DevEnv, Stored ?r)]"
    by (simp add: connect_def Name_fixedEnvs)
  have E: "DevEnv \<in> set fixedEnvs" by (simp add: fixedEnvs_def)
  have b: "BelongsToEnv ((New [])\<lparr>Environment := Some DevEnv\<rparr>) (Some DevEnv)"
    by (simp add: BelongsToEnv_def)
  show "GetSecrets L (connect ?src) (Some DevEnv) = Inr \<lparr>Client = ?src, Secrets = [?new]\<rparr>"
    unfolding GetSecrets_single_suffixed [OF k E b]
    by (simp add: connect_def IsGroup_fixedEnvs)
  have e: "GetSecrets L (connect \<lparr>kv = [], calls = []\<rparr>) None =
      Inr \<lparr>Client = \<lparr>kv = [], calls = []\<rparr>, Secrets = []\<rparr>"
    by (simp add: GetSecrets_def getSecretKeys_def connect_def)
  show "UpdateSecrets L (connect \<lparr>kv = [], calls = []\<rparr>) [?new] =
     Inr \<lparr>Client = \<lparr>kv = [(''db-password'', Stored ?r)],
                    calls = [Put ''db-password'' ?d, PutMetadata ''db-password'' (Some fmempty)]\<rparr>,
          Secrets = []\<rparr>"
    unfolding UpdateSecrets_def e
    by (simp add: CleanRemovedSecrets_def putSecretData_def putSecretMetadata_def
        KVv2_Put_def KVv2_PutMetadata_def)
  let ?dst = "\<lparr>kv = [(''db-password'', Stored ?r)], calls = []\<rparr>"
  have k2: "kv (Client (connect ?dst)) = [(''db-password'', Stored ?r)]"
    by (simp add: connect_def)
  have g: "GetSecrets L (connect ?dst) None = Inr \<lparr>Client = ?dst, Secrets = []\<rparr>"
    unfolding GetSecrets_nil_single [OF k2]
    by (simp add: keep_db_password List.map_filter_simps connect_def)
  show "UpdateSecrets L (connect ?dst) [?new] =
     Inr \<lparr>Client = \<lparr>kv = [(''db-password'', Stored ?r)],
                    calls = [Put ''db-password'' ?d, PutMetadata ''db-password'' (Some fmempty)]\<rparr>,
          Secrets = []\<rparr>"
    unfolding UpdateSecrets_def g
    by (simp add: CleanRemovedSecrets_def putSecretData_def putSecretMetadata_def
        KVv2_Put_def KVv2_PutMetadata_def)
qed

end
